theory Spec2Isabelle
  imports Complex_Main
begin

section \<open>Text and character classes\<close>

text \<open>
  The program is \<^verbatim>\<open>recrawl.py\<close>, a recursive web crawler that runs regular expressions
  over each page it fetches. A Python \<^verbatim>\<open>str\<close> is modelled as a \<^typ>\<open>string\<close>; a
  \<^typ>\<open>char\<close> stands for a code point below 256, so the texts of the model are the Latin-1
  texts. The classes below are those of Python's \<^verbatim>\<open>re\<close> module on \<^verbatim>\<open>str\<close> patterns,
  restricted to that range: \<^verbatim>\<open>\d\<close> is the decimal digits, \<^verbatim>\<open>\s\<close> the white space of
  \<^verbatim>\<open>str.isspace\<close>, and \<^verbatim>\<open>\w\<close> the alphanumerics of \<^verbatim>\<open>str.isalnum\<close> and the underscore.
\<close>

definition digit :: "char \<Rightarrow> bool" where
  "digit c = (c \<in> set ''0123456789'')"

definition upper :: "char \<Rightarrow> bool" where
  "upper c = (c \<in> set ''ABCDEFGHIJKLMNOPQRSTUVWXYZ'')"

definition lower :: "char \<Rightarrow> bool" where
  "lower c = (c \<in> set ''abcdefghijklmnopqrstuvwxyz'')"

definition space :: "char \<Rightarrow> bool" where
  "space c = (c \<in> set [CHR 0x09, CHR 0x0A, CHR 0x0B, CHR 0x0C, CHR 0x0D,
                          CHR 0x1C, CHR 0x1D, CHR 0x1E, CHR 0x1F, CHR 0x20, CHR 0x85, CHR 0xA0])"

definition latin1_alnum :: "char \<Rightarrow> bool" where
  "latin1_alnum c = (let n = (of_char c :: nat) in
     n \<in> set [0xAA, 0xB2, 0xB3, 0xB5, 0xB9, 0xBA, 0xBC, 0xBD, 0xBE] \<or>
     (0xC0 \<le> n \<and> n \<le> 0xD6) \<or> (0xD8 \<le> n \<and> n \<le> 0xF6) \<or> 0xF8 \<le> n)"

definition word :: "char \<Rightarrow> bool" where
  "word c = (digit c \<or> upper c \<or> lower c \<or> c = CHR ''_'' \<or> latin1_alnum c)"

definition one_of :: "string \<Rightarrow> char \<Rightarrow> bool" where
  "one_of cs c = (c \<in> set cs)"

section \<open>The regular expressions of the source and their matcher\<close>

text \<open>
  The patterns of the source use single-character classes, greedy counted repetition of a
  class, greedy optional parts, ordered alternation, capturing groups, the word boundary
  \<^verbatim>\<open>\b\<close> and the anchors \<^verbatim>\<open>^\<close> and \<^verbatim>\<open>$\<close>. \<open>Rep p lo hi\<close> is \<^verbatim>\<open>p{lo,hi}\<close> with
  \<open>hi = None\<close> for no upper bound.
\<close>

datatype rx =
    Eps
  | Chr "char \<Rightarrow> bool"
  | Rep "char \<Rightarrow> bool" nat "nat option"
  | Seq rx rx
  | Alt rx rx
  | Opt rx
  | Grp nat rx
  | WordBoundary
  | StartAnchor
  | EndAnchor

type_synonym caps = "(nat \<times> string) list"

text \<open>
  Python's engine backtracks: a greedy repetition takes as many characters as it can and
  gives them back one at a time while the rest of the pattern fails. The matcher is written
  with a continuation \<open>k\<close> for the rest of the pattern; \<open>None\<close> is failure, which makes the
  caller try its next choice. A position is the character before it (\<open>None\<close> at the start
  of the text), the text from it on, and the groups captured so far.
\<close>

fun greedy :: "(char \<Rightarrow> bool) \<Rightarrow> nat \<Rightarrow> nat option \<Rightarrow> char option \<Rightarrow> string \<Rightarrow>
    (char option \<Rightarrow> string \<Rightarrow> 'r option) \<Rightarrow> 'r option" where
  "greedy p lo hi prev [] k = (if lo = 0 then k prev [] else None)"
| "greedy p lo hi prev (c # cs) k =
     (if p c \<and> hi \<noteq> Some 0 then
        (case greedy p (lo - 1) (map_option (\<lambda>h. h - 1) hi) (Some c) cs k of
           Some r \<Rightarrow> Some r
         | None \<Rightarrow> if lo = 0 then k prev (c # cs) else None)
      else if lo = 0 then k prev (c # cs) else None)"

definition at_boundary :: "char option \<Rightarrow> string \<Rightarrow> bool" where
  "at_boundary prev rest =
     ((case prev of None \<Rightarrow> False | Some c \<Rightarrow> word c) \<noteq>
      (case rest of [] \<Rightarrow> False | c # _ \<Rightarrow> word c))"

fun rx_match :: "rx \<Rightarrow> char option \<Rightarrow> string \<Rightarrow> caps \<Rightarrow>
    (char option \<Rightarrow> string \<Rightarrow> caps \<Rightarrow> 'r option) \<Rightarrow> 'r option" where
  "rx_match Eps prev rest g k = k prev rest g"
| "rx_match (Chr p) prev rest g k =
     (case rest of [] \<Rightarrow> None | c # cs \<Rightarrow> if p c then k (Some c) cs g else None)"
| "rx_match (Rep p lo hi) prev rest g k = greedy p lo hi prev rest (\<lambda>prev' rest'. k prev' rest' g)"
| "rx_match (Seq a b) prev rest g k =
     rx_match a prev rest g (\<lambda>prev' rest' g'. rx_match b prev' rest' g' k)"
| "rx_match (Alt a b) prev rest g k =
     (case rx_match a prev rest g k of Some r \<Rightarrow> Some r | None \<Rightarrow> rx_match b prev rest g k)"
| "rx_match (Opt a) prev rest g k =
     (case rx_match a prev rest g k of Some r \<Rightarrow> Some r | None \<Rightarrow> k prev rest g)"
| "rx_match (Grp n a) prev rest g k =
     rx_match a prev rest g
       (\<lambda>prev' rest' g'. k prev' rest' ((n, take (length rest - length rest') rest) # g'))"
| "rx_match WordBoundary prev rest g k = (if at_boundary prev rest then k prev rest g else None)"
| "rx_match StartAnchor prev rest g k = (if prev = None then k prev rest g else None)"
| "rx_match EndAnchor prev rest g k =
     (if rest = [] \<or> rest = [CHR 0x0A] then k prev rest g else None)"

text \<open>
  One attempt at one position, as the engine's \<^verbatim>\<open>match\<close>: the length of the match and its
  groups. With \<open>must_advance\<close> an empty match is refused and the engine backtracks into the
  pattern for another one.
\<close>

definition match_at :: "rx \<Rightarrow> bool \<Rightarrow> char option \<Rightarrow> string \<Rightarrow> (nat \<times> caps) option" where
  "match_at r must_advance prev text =
     rx_match r prev text []
       (\<lambda>prev' rest' g. if must_advance \<and> length rest' = length text then None
                         else Some (length text - length rest', g))"

text \<open>\<^verbatim>\<open>re.match(pattern, s)\<close>: one attempt at the start of \<open>s\<close>.\<close>

definition re_match :: "rx \<Rightarrow> string \<Rightarrow> (nat \<times> caps) option" where
  "re_match r s = match_at r False None s"

text \<open>
  A compiled pattern, as \<^verbatim>\<open>findall\<close> uses it, is tried at one position of a text: given the
  text before the position (backwards) and the text from the position on, it fails, or it
  gives the length of the match and the texts of the groups of the pattern, the empty string
  for a group that took no part. When its first argument is set it refuses an empty match.
\<close>

type_synonym matcher = "bool \<Rightarrow> string \<Rightarrow> string \<Rightarrow> (nat \<times> string list) option"

text \<open>
  \<^verbatim>\<open>findall\<close> scans from left to right. After a match it goes on from the end of the match;
  after an empty match the next attempt at the same position must advance; a position with
  no match is skipped. The second argument of \<open>scan\<close> counts the characters of the last match
  that are still to be passed over. An item is the matched text and the groups.
\<close>

function scan :: "matcher \<Rightarrow> nat \<Rightarrow> string \<Rightarrow> string \<Rightarrow> (string \<times> string list) list" where
  "scan m (Suc n) before [] = []"
| "scan m (Suc n) before (c # cs) = scan m n (c # before) cs"
| "scan m 0 before text =
     (case m False before text of
        None \<Rightarrow> (case text of [] \<Rightarrow> [] | c # cs \<Rightarrow> scan m 0 (c # before) cs)
      | Some (len, g) \<Rightarrow>
          (take len text, g) #
          (if 0 < len then scan m len before text
           else (case m True before text of
                   None \<Rightarrow> (case text of [] \<Rightarrow> [] | c # cs \<Rightarrow> scan m 0 (c # before) cs)
                 | Some (len', g') \<Rightarrow>
                     if 0 < len' then (take len' text, g') # scan m len' before text
                     else (case text of [] \<Rightarrow> [] | c # cs \<Rightarrow> scan m 0 (c # before) cs))))"
  by pat_completeness auto
termination
  by (relation "measure (\<lambda>(m, n, before, text). 2 * length text + (if n = 0 then 1 else 0))") auto

text \<open>
  \<^verbatim>\<open>re.findall\<close> gives, for a pattern without groups, the matched texts; for a pattern with
  one group the texts of the group; and for a pattern with several groups the tuples of
  their texts. An item is kept here as the list of its strings, one string in the first
  two cases.
\<close>

definition findall_items :: "matcher \<Rightarrow> string \<Rightarrow> string list list" where
  "findall_items m text =
     map (\<lambda>(matched, groups). if groups = [] then [matched] else groups) (scan m 0 [] text)"

text \<open>
  The patterns of the source as compiled patterns: \<open>compiled r n\<close> is the pattern \<open>r\<close> with
  its \<open>n\<close> groups. The matcher needs of the text before the position its last character
  only.
\<close>

definition group :: "caps \<Rightarrow> nat \<Rightarrow> string" where
  "group g i = (case map_of g i of None \<Rightarrow> [] | Some s \<Rightarrow> s)"

definition compiled :: "rx \<Rightarrow> nat \<Rightarrow> matcher" where
  "compiled r n must_advance before text =
     map_option (\<lambda>(len, g). (len, map (group g) [1..<Suc n]))
       (match_at r must_advance (case before of [] \<Rightarrow> None | c # _ \<Rightarrow> Some c) text)"

text \<open>
  \<^verbatim>\<open>pattern.findall(text)\<close> for a pattern of the source without groups, which gives the
  matched texts, and for one with \<open>n\<close> groups, which gives the tuples of the groups.
\<close>

definition findall :: "rx \<Rightarrow> string \<Rightarrow> string list" where
  "findall r text = map fst (scan (compiled r 0) 0 [] text)"

definition findall_groups :: "rx \<Rightarrow> nat \<Rightarrow> string \<Rightarrow> string list list" where
  "findall_groups r n text = map snd (scan (compiled r n) 0 [] text)"

section \<open>What the program calls\<close>

text \<open>
  The program reaches the network, parses HTML and URLs and compiles the user's pattern
  through libraries. They are parameters of the model:
  \<^item> \<open>http_get url\<close> is \<^verbatim>\<open>requests.get(url)\<close> followed by \<^verbatim>\<open>raise_for_status()\<close>: the text
    of the response, or \<open>None\<close> when a \<^verbatim>\<open>RequestException\<close> is raised;
  \<^item> \<open>hrefs html\<close> is the \<^verbatim>\<open>href\<close> of every \<^verbatim>\<open>a\<close> element that has one, in document order,
    as \<^verbatim>\<open>BeautifulSoup(html, 'html.parser').find_all('a', href=True)\<close> gives them;
  \<^item> \<open>urljoin base href\<close> is \<^verbatim>\<open>urllib.parse.urljoin(base, href)\<close> and \<open>netloc u\<close> is
    \<^verbatim>\<open>urlparse(u).netloc\<close>, the authority of the URL with its user information and port;
    both are \<open>None\<close> when \<^verbatim>\<open>urllib\<close> raises \<^verbatim>\<open>ValueError\<close>, as it does for a reference
    such as \<^verbatim>\<open>http://[x\<close>;
  \<^item> \<open>re_compile_ignorecase pattern\<close> is the pattern compiled with \<^verbatim>\<open>re.IGNORECASE\<close>, as
    \<^verbatim>\<open>re.findall\<close> does first, or \<open>None\<close> when \<^verbatim>\<open>re.error\<close> is raised;
  \<^item> \<open>iteration s\<close> is the order in which Python iterates over the set \<open>s\<close>.
\<close>

record lib =
  http_get :: "string \<Rightarrow> string option"
  hrefs :: "string \<Rightarrow> string list"
  urljoin :: "string \<Rightarrow> string \<Rightarrow> string option"
  netloc :: "string \<Rightarrow> string option"
  re_compile_ignorecase :: "string \<Rightarrow> matcher option"
  iteration :: "string list \<Rightarrow> string list"

text \<open>
  A call of the program ends by returning, or by an exception that nothing in the program
  catches: \<open>Re_error\<close> is \<^verbatim>\<open>re.error\<close> and \<open>Value_error\<close> is \<^verbatim>\<open>ValueError\<close>.
\<close>

datatype stop = Re_error | Value_error

section \<open>The extractors\<close>

subsection \<open>Phone numbers\<close>

text \<open>
  The pattern of \<^verbatim>\<open>find_phone_numbers\<close>, written with \<^verbatim>\<open>re.VERBOSE\<close>:
  \<^verbatim>\<open>(\+?\d{1,3}[\s.-]?)?  (\(?\d{3}\)?[\s.-]?)?  (\d{3}[\s.-]?\d{4}|\d{7}|\d{10,11})\<close>
\<close>

definition separator :: "char \<Rightarrow> bool" where
  "separator c = (space c \<or> one_of ''.-'' c)"

definition country_code :: rx where
  "country_code =
     Opt (Grp 1 (Seq (Rep (one_of ''+'') 0 (Some 1))
                (Seq (Rep digit 1 (Some 3)) (Rep separator 0 (Some 1)))))"

definition area_code :: rx where
  "area_code =
     Opt (Grp 2 (Seq (Rep (one_of ''('') 0 (Some 1))
                (Seq (Rep digit 3 (Some 3))
                (Seq (Rep (one_of '')'') 0 (Some 1)) (Rep separator 0 (Some 1))))))"

definition main_number :: rx where
  "main_number =
     Grp 3 (Alt (Seq (Rep digit 3 (Some 3)) (Seq (Rep separator 0 (Some 1)) (Rep digit 4 (Some 4))))
           (Alt (Rep digit 7 (Some 7)) (Rep digit 10 (Some 11))))"

definition phone_pattern :: rx where
  "phone_pattern = Seq country_code (Seq area_code main_number)"

text \<open>\<^verbatim>\<open>len(re.sub(r'\D', '', s))\<close>: the number of digits of \<open>s\<close>.\<close>

definition digit_count :: "string \<Rightarrow> nat" where
  "digit_count s = length (filter digit s)"

text \<open>
  A Python \<^verbatim>\<open>set\<close> of strings is kept as a list without duplicates, in the order of
  insertion. Python fixes no order for \<^verbatim>\<open>list(s)\<close>; the theorems about the extractors
  speak of the elements only.
\<close>

definition set_add :: "string list \<Rightarrow> string \<Rightarrow> string list" where
  "set_add s x = (if x \<in> set s then s else s @ [x])"

definition find_phone_numbers :: "string \<Rightarrow> string list" where
  "find_phone_numbers html =
     (let matches = findall_groups phone_pattern 3 html;
          valid_numbers =
            foldl (\<lambda>valid_numbers match.
                     let phone_number = concat match
                     in if digit_count phone_number \<in> {10, 11}
                        then set_add valid_numbers phone_number else valid_numbers)
                  [] matches
      in valid_numbers)"

subsection \<open>Email addresses\<close>

text \<open>
  The scanning pattern
  \<^verbatim>\<open>\b[A-Za-z0-9._%+-]+@[A-Za-z0-9.-]+\.[A-Z|a-z]{2,}\b\<close>
  (its last class holds the bar) and the anchored one
  \<^verbatim>\<open>^[a-zA-Z0-9._%+-]+@[a-zA-Z0-9.-]+\.[a-zA-Z]{2,}$\<close>.
\<close>

definition local_part :: "char \<Rightarrow> bool" where
  "local_part c = (upper c \<or> lower c \<or> digit c \<or> one_of ''._%+-'' c)"

definition domain_part :: "char \<Rightarrow> bool" where
  "domain_part c = (upper c \<or> lower c \<or> digit c \<or> one_of ''.-'' c)"

definition email_pattern :: rx where
  "email_pattern =
     Seq WordBoundary (Seq (Rep local_part 1 None) (Seq (Chr (one_of ''@''))
    (Seq (Rep domain_part 1 None) (Seq (Chr (one_of ''.''))
    (Seq (Rep (\<lambda>c. upper c \<or> one_of ''|'' c \<or> lower c) 2 None) WordBoundary)))))"

definition email_validation :: rx where
  "email_validation =
     Seq StartAnchor (Seq (Rep local_part 1 None) (Seq (Chr (one_of ''@''))
    (Seq (Rep domain_part 1 None) (Seq (Chr (one_of ''.''))
    (Seq (Rep (\<lambda>c. lower c \<or> upper c) 2 None) EndAnchor)))))"

definition find_email_addresses :: "string \<Rightarrow> string list" where
  "find_email_addresses html =
     (let matches = findall email_pattern html;
          valid_emails =
            foldl (\<lambda>valid_emails email.
                     if re_match email_validation email \<noteq> None
                     then set_add valid_emails email else valid_emails)
                  [] matches
      in valid_emails)"

subsection \<open>The custom pattern\<close>

text \<open>
  \<^verbatim>\<open>find_strings\<close> hands the user's pattern string to \<^verbatim>\<open>re.findall\<close> with
  \<^verbatim>\<open>re.IGNORECASE\<close>, which compiles it and scans the text.
\<close>

definition find_strings :: "lib \<Rightarrow> string \<Rightarrow> string \<Rightarrow> stop + string list list" where
  "find_strings L html search_string =
     (case re_compile_ignorecase L search_string of
        None \<Rightarrow> Inl Re_error
      | Some m \<Rightarrow> (let instances = findall_items m html in Inr instances))"

section \<open>The crawler\<close>

subsection \<open>State and effects\<close>

text \<open>
  \<open>visited_urls\<close> is the global set of the module. \<open>requests\<close> records every call of
  \<^verbatim>\<open>requests.get\<close>, with the \<^verbatim>\<open>depth\<close> argument of the call of \<^verbatim>\<open>crawl\<close> that made it;
  \<open>printed\<close> is the output, one event for each \<^verbatim>\<open>print\<close>.
\<close>

datatype event =
    Crawling string
  | Failed_to_fetch string
  | Phone_numbers_found string "string list"
  | Email_addresses_found string "string list"
  | Strings_found string "string list list"

record state =
  visited_urls :: "string set"
  requests :: "(string \<times> int) list"
  printed :: "event list"

definition start :: state where
  "start = \<lparr>visited_urls = {}, requests = [], printed = []\<rparr>"

definition print :: "event \<Rightarrow> state \<Rightarrow> state" where
  "print e st = st\<lparr>printed := printed st @ [e]\<rparr>"

text \<open>
  \<^verbatim>\<open>fetch_html\<close>; the depth is passed only to be recorded with the request.
\<close>

definition fetch_html :: "lib \<Rightarrow> string \<Rightarrow> int \<Rightarrow> state \<Rightarrow> string \<times> state" where
  "fetch_html L url depth st =
     (let st' = st\<lparr>requests := requests st @ [(url, depth)]\<rparr>
      in case http_get L url of
           Some text \<Rightarrow> (text, st')
         | None \<Rightarrow> ([], print (Failed_to_fetch url) st'))"

text \<open>
  \<^verbatim>\<open>get_links\<close>: the loop over the anchors, then the function. Nothing catches the
  \<^verbatim>\<open>ValueError\<close> of \<^verbatim>\<open>urlparse\<close> and \<^verbatim>\<open>urljoin\<close>, which ends the call at the first
  reference that raises it.
\<close>

fun collect_links :: "lib \<Rightarrow> string \<Rightarrow> string \<Rightarrow> bool \<Rightarrow> string list \<Rightarrow> string list \<Rightarrow>
    stop + string list" where
  "collect_links L base_url base_domain follow_external [] links = Inr links"
| "collect_links L base_url base_domain follow_external (href # others) links =
     (case urljoin L base_url href of
        None \<Rightarrow> Inl Value_error
      | Some full_url \<Rightarrow>
          (case netloc L full_url of
             None \<Rightarrow> Inl Value_error
           | Some link_domain \<Rightarrow>
               collect_links L base_url base_domain follow_external others
                 (if follow_external \<or> link_domain = base_domain
                  then set_add links full_url else links)))"

definition get_links :: "lib \<Rightarrow> string \<Rightarrow> string \<Rightarrow> bool \<Rightarrow> stop + string list" where
  "get_links L html base_url follow_external =
     (case netloc L base_url of
        None \<Rightarrow> Inl Value_error
      | Some base_domain \<Rightarrow>
          collect_links L base_url base_domain follow_external (hrefs L html) [])"

subsection \<open>The reports of a page\<close>

definition report_phone_numbers :: "string \<Rightarrow> string \<Rightarrow> state \<Rightarrow> state" where
  "report_phone_numbers url html st =
     (let phone_numbers = find_phone_numbers html
      in if phone_numbers \<noteq> [] then
           (let phone_numbers = filter (\<lambda>number. digit_count number \<in> {10, 11}) phone_numbers
            in if phone_numbers \<noteq> [] then print (Phone_numbers_found url phone_numbers) st
               else st)
         else st)"

definition report_email_addresses :: "string \<Rightarrow> string \<Rightarrow> state \<Rightarrow> state" where
  "report_email_addresses url html st =
     (let email_addresses = find_email_addresses html
      in if email_addresses \<noteq> [] then print (Email_addresses_found url email_addresses) st
         else st)"

definition report_strings :: "lib \<Rightarrow> string \<Rightarrow> string \<Rightarrow> string \<Rightarrow> state \<Rightarrow> stop + state" where
  "report_strings L url html search_string st =
     (case find_strings L html search_string of
        Inl e \<Rightarrow> Inl e
      | Inr string_instances \<Rightarrow>
          Inr (if string_instances \<noteq> [] then print (Strings_found url string_instances) st
               else st))"

subsection \<open>The recursion\<close>

text \<open>
  A call of \<^verbatim>\<open>crawl\<close> returns, or an exception ends the run, or the recursion goes on: the
  first argument bounds the depth of the nested calls, and \<open>Out_of_fuel\<close> says that the bound
  was reached. The state is that of the moment the call ended.

  \<^verbatim>\<open>time.sleep(delay)\<close> only takes time, but raises \<^verbatim>\<open>ValueError\<close> for a negative delay.
  The recursive call passes no \<^verbatim>\<open>search_string\<close>, which is then the default \<^verbatim>\<open>None\<close>.
\<close>

datatype outcome = Returned | Raised stop | Out_of_fuel

fun crawl :: "nat \<Rightarrow> lib \<Rightarrow> string \<Rightarrow> string \<Rightarrow> int \<Rightarrow> bool \<Rightarrow> rat \<Rightarrow> bool \<Rightarrow> bool \<Rightarrow>
    string option \<Rightarrow> state \<Rightarrow> outcome \<times> state"
and crawl_links :: "nat \<Rightarrow> lib \<Rightarrow> string list \<Rightarrow> string \<Rightarrow> int \<Rightarrow> bool \<Rightarrow> rat \<Rightarrow> bool \<Rightarrow> bool \<Rightarrow>
    state \<Rightarrow> outcome \<times> state" where
  "crawl 0 L url base_url depth follow_external delay phone email search_string st =
     (Out_of_fuel, st)"
| "crawl (Suc fuel) L url base_url depth follow_external delay phone email search_string st =
     (if depth = 0 \<or> url \<in> visited_urls st then (Returned, st)
      else
        let st1 = print (Crawling url) st;
            st2 = st1\<lparr>visited_urls := insert url (visited_urls st1)\<rparr>;
            (html, st3) = fetch_html L url depth st2
        in if html = [] then (Returned, st3)
           else
             let st4 = (if phone then report_phone_numbers url html st3 else st3);
                 st5 = (if email then report_email_addresses url html st4 else st4)
             in case (case search_string of
                        None \<Rightarrow> Inr st5
                      | Some s \<Rightarrow> if s = [] then Inr st5 else report_strings L url html s st5) of
                  Inl e \<Rightarrow> (Raised e, st5)
                | Inr st6 \<Rightarrow>
                    (case get_links L html base_url follow_external of
                       Inl e \<Rightarrow> (Raised e, st6)
                     | Inr links \<Rightarrow>
                         crawl_links fuel L (iteration L links)
                           base_url depth follow_external delay phone email st6))"
| "crawl_links fuel L [] base_url depth follow_external delay phone email st = (Returned, st)"
| "crawl_links fuel L (link # links) base_url depth follow_external delay phone email st =
     (if delay < 0 then (Raised Value_error, st)
      else case crawl fuel L link base_url (depth - 1) follow_external delay phone email None st of
             (Returned, st') \<Rightarrow>
               crawl_links fuel L links base_url depth follow_external delay phone email st'
           | (stopped, st') \<Rightarrow> (stopped, st'))"

section \<open>Scenarios\<close>

text \<open>
  A small site for the concrete runs: each page is its URL, its text and the references of
  its anchors. \<open>simple_urljoin\<close> and \<open>simple_netloc\<close> stand for \<^verbatim>\<open>urllib\<close> on the URLs of
  the scenarios, where they agree with it: a reference with a scheme is absolute, any other
  is a relative path resolved against the directory of the base; the authority is what lies
  between \<^verbatim>\<open>://\<close> and the next \<^verbatim>\<open>/\<close>, \<^verbatim>\<open>?\<close> or \<^verbatim>\<open>#\<close>, port included; and an authority
  with one square bracket and not the other raises \<^verbatim>\<open>ValueError\<close>. The set of links is
  iterated in the order of insertion.
\<close>

fun after_scheme :: "string \<Rightarrow> string option" where
  "after_scheme (a # b # c # rest) =
     (if a = CHR '':'' \<and> b = CHR ''/'' \<and> c = CHR ''/'' then Some rest
      else after_scheme (b # c # rest))"
| "after_scheme rest = None"

definition simple_netloc :: "string \<Rightarrow> string option" where
  "simple_netloc u =
     (case after_scheme u of
        None \<Rightarrow> Some []
      | Some rest \<Rightarrow>
          (let authority = takeWhile (\<lambda>c. \<not> one_of ''/?#'' c) rest
           in if (CHR ''['' \<in> set authority) \<noteq> (CHR '']'' \<in> set authority) then None
              else Some authority))"

definition simple_urljoin :: "string \<Rightarrow> string \<Rightarrow> string option" where
  "simple_urljoin base href =
     (if after_scheme href \<noteq> None
      then (case simple_netloc href of None \<Rightarrow> None | Some authority \<Rightarrow> Some href)
      else Some (rev (dropWhile (\<lambda>c. c \<noteq> CHR ''/'') (rev base)) @ href))"

text \<open>
  \<open>simple_compile\<close> is the pattern compiler of the library of the scenarios. It covers the
  patterns that the scenarios search for, those made of ordinary characters, of dots and of
  the greedy repeats \<^verbatim>\<open>*\<close>, \<^verbatim>\<open>+\<close> and \<^verbatim>\<open>?\<close>, and on them it is \<^verbatim>\<open>re.compile\<close> with
  \<^verbatim>\<open>re.IGNORECASE\<close>: an ordinary character matches itself in either case, the dot matches
  any character but the newline, a repeat sign repeats the character or dot before it, and
  a repeat sign with nothing before it raises \<^verbatim>\<open>re.error\<close> (nothing to repeat). A pattern
  with any other syntax (a backslash, a bracket, a brace, a parenthesis, a bar, a caret, a
  dollar, or a repeat sign right after a repeat) is not covered: this library answers
  \<open>None\<close> on it, which need not be what Python does, and nothing below evaluates it on such
  a pattern. The theorems about every library \<open>L\<close> are independent of it.
\<close>

definition to_lower :: "char \<Rightarrow> char" where
  "to_lower c = (let n = (of_char c :: nat) in
     if (0x41 \<le> n \<and> n \<le> 0x5A) \<or> (0xC0 \<le> n \<and> n \<le> 0xD6) \<or> (0xD8 \<le> n \<and> n \<le> 0xDE)
     then char_of (n + 32) else c)"

datatype item = Single "char \<Rightarrow> bool" | Repeated "char \<Rightarrow> bool" nat "nat option"

fun simple_pattern :: "string \<Rightarrow> item list \<Rightarrow> item list option" where
  "simple_pattern [] items = Some (rev items)"
| "simple_pattern (c # cs) items =
     (if c \<in> set ''*+?'' then
        (case items of
           [] \<Rightarrow> None
         | Single p # items' \<Rightarrow>
             simple_pattern cs (Repeated p (if c = CHR ''+'' then 1 else 0)
                                  (if c = CHR ''?'' then Some 1 else None) # items')
         | Repeated p lo hi # items' \<Rightarrow> None)
      else if c \<in> set [CHR 0x5C, CHR ''['', CHR '']'', CHR ''{'', CHR ''}'', CHR ''('', CHR '')'',
                        CHR ''|'', CHR ''^'', CHR ''$''] then None
      else if c = CHR ''.'' then simple_pattern cs (Single (\<lambda>t. t \<noteq> CHR 0x0A) # items)
      else simple_pattern cs (Single (\<lambda>t. to_lower t = to_lower c) # items))"

fun item_rx :: "item \<Rightarrow> rx" where
  "item_rx (Single p) = Chr p"
| "item_rx (Repeated p lo hi) = Rep p lo hi"

definition simple_compile :: "string \<Rightarrow> matcher option" where
  "simple_compile pattern =
     map_option (\<lambda>items. compiled (foldr (\<lambda>i r. Seq (item_rx i) r) items Eps) 0)
       (simple_pattern pattern [])"

definition site :: "(string \<times> string \<times> string list) list \<Rightarrow> lib" where
  "site pages =
     \<lparr>http_get = (\<lambda>url. map_option fst (map_of pages url)),
      hrefs = (\<lambda>html. case find (\<lambda>(url, text, refs). text = html) pages of
                         None \<Rightarrow> [] | Some (url, text, refs) \<Rightarrow> refs),
      urljoin = simple_urljoin,
      netloc = simple_netloc,
      re_compile_ignorecase = simple_compile,
      iteration = (\<lambda>links. links)\<rparr>"

text \<open>
  The site of the scenario of the specification: the seed links to \<^verbatim>\<open>p1\<close> twice and to
  \<^verbatim>\<open>p2\<close>, and these two pages have links of their own.
\<close>

definition links_site :: lib where
  "links_site = site
     [(''https://a.com/'', ''seed'', [''https://a.com/p1'', ''https://a.com/p1'', ''https://a.com/p2'']),
      (''https://a.com/p1'', ''first'', [''https://a.com/p3'']),
      (''https://a.com/p2'', ''second'', [''https://a.com/p4'']),
      (''https://a.com/p3'', ''third'', []),
      (''https://a.com/p4'', ''fourth'', [])]"


text \<open>
  A page in a directory whose relative link leads to a page of the same directory.
\<close>

definition relative_site :: lib where
  "relative_site = site
     [(''https://a.com/'', ''home'', [''dir/page.html'']),
      (''https://a.com/dir/page.html'', ''page'', [''other.html'']),
      (''https://a.com/dir/other.html'', ''other'', [])]"

text \<open>
  A seed and a page it links to, both holding the word that is searched for.
\<close>

definition search_site :: lib where
  "search_site = site
     [(''https://a.com/'', ''a needle on the seed'', [''https://a.com/p1'']),
      (''https://a.com/p1'', ''a Needle on a child'', [])]"

text \<open>
  A seed with a link to a page whose response is empty and a link to an ordinary page.
\<close>

definition empty_page_site :: lib where
  "empty_page_site = site
     [(''https://a.com/'', ''home'', [''https://a.com/empty'', ''https://a.com/p1'']),
      (''https://a.com/empty'', '''', []),
      (''https://a.com/p1'', ''one'', [])]"


section \<open>Notions used in the proofs\<close>

text \<open>
  The part of \<^verbatim>\<open>crawl\<close> between its guard and its loop, on its own: it stops (on an empty
  text or an exception) or hands the text and the state to the loop.
\<close>

definition visit :: "lib \<Rightarrow> string \<Rightarrow> int \<Rightarrow> bool \<Rightarrow> bool \<Rightarrow> string option \<Rightarrow> state \<Rightarrow>
    (outcome \<times> state) + (string \<times> state)" where
  "visit L url depth phone email search_string st =
     (let st1 = print (Crawling url) st;
          st2 = st1\<lparr>visited_urls := insert url (visited_urls st1)\<rparr>;
          (html, st3) = fetch_html L url depth st2
      in if html = [] then Inl (Returned, st3)
         else
           let st4 = (if phone then report_phone_numbers url html st3 else st3);
               st5 = (if email then report_email_addresses url html st4 else st4)
           in case (case search_string of
                      None \<Rightarrow> Inr st5
                    | Some s \<Rightarrow> if s = [] then Inr st5 else report_strings L url html s st5) of
                Inl e \<Rightarrow> Inl (Raised e, st5)
              | Inr st6 \<Rightarrow> Inr (html, st6))"

text \<open>
  The rest of \<^verbatim>\<open>crawl\<close> after the page has been read: the links are collected and the
  loop runs over them.
\<close>

definition follow :: "nat \<Rightarrow> lib \<Rightarrow> string \<Rightarrow> string \<Rightarrow> int \<Rightarrow> bool \<Rightarrow> rat \<Rightarrow> bool \<Rightarrow> bool \<Rightarrow>
    state \<Rightarrow> outcome \<times> state" where
  "follow fuel L html base_url depth follow_external delay phone email st =
     (case get_links L html base_url follow_external of
        Inl e \<Rightarrow> (Raised e, st)
      | Inr links \<Rightarrow>
          crawl_links fuel L (iteration L links) base_url depth follow_external delay phone
            email st)"

text \<open>
  \<open>references_parse L url base_url follow_external\<close>: if the request for \<open>url\<close> gives a text,
  \<^verbatim>\<open>get_links\<close> returns on it, that is, \<^verbatim>\<open>urllib\<close> accepts every reference that it holds.
\<close>

definition references_parse :: "lib \<Rightarrow> string \<Rightarrow> string \<Rightarrow> bool \<Rightarrow> bool" where
  "references_parse L url base_url follow_external =
     (case http_get L url of
        None \<Rightarrow> True
      | Some html \<Rightarrow>
          html = [] \<or>
          (case get_links L html base_url follow_external of
             Inl e \<Rightarrow> False
           | Inr links \<Rightarrow> True))"

text \<open>
  \<open>grows st st'\<close>: from \<open>st\<close> to \<open>st'\<close> some requests were made, each for a URL that was not
  visited before and no two for the same URL, and exactly their URLs were added to the
  visited set.
\<close>

definition grows :: "state \<Rightarrow> state \<Rightarrow> bool" where
  "grows st st' = (\<exists>new. requests st' = requests st @ new \<and> distinct (map fst new) \<and>
      fst ` set new \<inter> visited_urls st = {} \<and> visited_urls st' = visited_urls st \<union> fst ` set new)"

text \<open>
  \<open>no_deeper d st st'\<close>: from \<open>st\<close> to \<open>st'\<close> some requests were made, each by a call of
  \<^verbatim>\<open>crawl\<close> whose depth is at most \<open>d\<close>, and positive when \<open>d\<close> is not negative.
\<close>

definition no_deeper :: "int \<Rightarrow> state \<Rightarrow> state \<Rightarrow> bool" where
  "no_deeper d st st' = (\<exists>new. requests st' = requests st @ new \<and>
      (\<forall>(u, r) \<in> set new. r \<le> d \<and> (0 \<le> d \<longrightarrow> 0 < r)))"

text \<open>
  \<open>failing_at L u\<close> is the world \<open>L\<close> with the one difference that the request for \<open>u\<close>
  fails. Two states are \<open>alike\<close> when they have the same visited set, the same requests and
  the same output but for the lines \<^verbatim>\<open>Failed to fetch\<close>, which \<^verbatim>\<open>fetch_html\<close> prints.
\<close>

definition is_failure :: "event \<Rightarrow> bool" where
  "is_failure e = (case e of Failed_to_fetch url \<Rightarrow> True | _ \<Rightarrow> False)"

definition but_failures :: "event list \<Rightarrow> event list" where
  "but_failures es = filter (\<lambda>e. \<not> is_failure e) es"

definition alike :: "state \<Rightarrow> state \<Rightarrow> bool" where
  "alike st st' = (visited_urls st = visited_urls st' \<and> requests st = requests st' \<and>
     but_failures (printed st) = but_failures (printed st'))"

definition failing_at :: "lib \<Rightarrow> string \<Rightarrow> lib" where
  "failing_at L u = L\<lparr>http_get := (http_get L)(u := None)\<rparr>"

text \<open>
  \<open>unsearched st st'\<close>: from \<open>st\<close> to \<open>st'\<close> lines were printed, none of them a report of
  the custom pattern.
\<close>

definition is_strings_found :: "event \<Rightarrow> bool" where
  "is_strings_found e = (case e of Strings_found url found \<Rightarrow> True | _ \<Rightarrow> False)"

definition unsearched :: "state \<Rightarrow> state \<Rightarrow> bool" where
  "unsearched st st' =
     (\<exists>new. printed st' = printed st @ new \<and> (\<forall>e \<in> set new. \<not> is_strings_found e))"

text \<open>
  \<open>hops L base_url follow_external url n v\<close>: \<open>v\<close> is reached from \<open>url\<close> over \<open>n\<close> links,
  each a link that \<open>get_links\<close> finds on the text of the page before it.
  \<open>reached \<dots> urls d st st'\<close>: from \<open>st\<close> to \<open>st'\<close> some requests were made, each with a depth
  \<open>r\<close> for a URL that is \<open>d - r\<close> links away from one of \<open>urls\<close>.
\<close>

inductive hops :: "lib \<Rightarrow> string \<Rightarrow> bool \<Rightarrow> string \<Rightarrow> nat \<Rightarrow> string \<Rightarrow> bool"
  for L :: lib and base_url :: string and follow_external :: bool and url :: string
  where
    here: "hops L base_url follow_external url 0 url"
  | link: "hops L base_url follow_external url n page \<Longrightarrow>
           http_get L page = Some html \<Longrightarrow> html \<noteq> [] \<Longrightarrow>
           get_links L html base_url follow_external = Inr links \<Longrightarrow>
           link \<in> set (iteration L links) \<Longrightarrow>
           hops L base_url follow_external url (Suc n) link"

code_pred hops .

definition reached :: "lib \<Rightarrow> string \<Rightarrow> bool \<Rightarrow> string set \<Rightarrow> int \<Rightarrow> state \<Rightarrow> state \<Rightarrow> bool" where
  "reached L base_url follow_external urls d st st' =
     (\<exists>new. requests st' = requests st @ new \<and>
        (\<forall>(v, r) \<in> set new. \<exists>url \<in> urls. \<exists>n. int n = d - r \<and>
           hops L base_url follow_external url n v))"

section \<open>Steps that make no request\<close>

lemma grows_refl: "grows st st"
  by (simp add: grows_def)

lemma grows_trans: "grows a b \<Longrightarrow> grows b c \<Longrightarrow> grows a c"
  unfolding grows_def
  apply clarify
  subgoal for n1 n2
    apply (rule exI[of _ "n1 @ n2"])
    apply auto
    done
  done

lemma grows_same: "requests st' = requests st \<Longrightarrow> visited_urls st' = visited_urls st \<Longrightarrow> grows st st'"
  by (simp add: grows_def)

lemma print_fields [simp]:
  "visited_urls (print e st) = visited_urls st" "requests (print e st) = requests st"
  "printed (print e st) = printed st @ [e]"
  by (simp_all add: print_def)

lemma report_phone_numbers_fields [simp]:
  "visited_urls (report_phone_numbers url html st) = visited_urls st"
  "requests (report_phone_numbers url html st) = requests st"
  by (simp_all add: report_phone_numbers_def Let_def)

lemma report_email_addresses_fields [simp]:
  "visited_urls (report_email_addresses url html st) = visited_urls st"
  "requests (report_email_addresses url html st) = requests st"
  by (simp_all add: report_email_addresses_def Let_def)

lemma report_strings_fields:
  "report_strings L url html s st = Inr st' \<Longrightarrow>
     visited_urls st' = visited_urls st \<and> requests st' = requests st"
  by (auto simp: report_strings_def split: sum.splits if_splits)

lemma fetch_html_fields:
  "fetch_html L url depth st = (html, st') \<Longrightarrow>
     visited_urls st' = visited_urls st \<and> requests st' = requests st @ [(url, depth)]"
  by (auto simp: fetch_html_def Let_def split: option.splits)

section \<open>Unfolding a call\<close>

lemma crawl_Suc:
  "crawl (Suc fuel) L url base_url depth follow_external delay phone email search_string st =
     (if depth = 0 \<or> url \<in> visited_urls st then (Returned, st)
      else case visit L url depth phone email search_string st of
             Inl stopped \<Rightarrow> stopped
           | Inr (html, st') \<Rightarrow>
               follow fuel L html base_url depth follow_external delay phone email st')"
  by (simp add: visit_def follow_def Let_def split: prod.splits sum.splits option.splits)

lemma visit_unfold:
  assumes f: "fetch_html L url depth
                ((print (Crawling url) st)\<lparr>visited_urls := insert url (visited_urls st)\<rparr>) = (html, st3)"
  shows "visit L url depth phone email search_string st =
     (if html = [] then Inl (Returned, st3)
      else
        let st4 = (if phone then report_phone_numbers url html st3 else st3);
            st5 = (if email then report_email_addresses url html st4 else st4)
        in case (case search_string of
                   None \<Rightarrow> Inr st5
                 | Some s \<Rightarrow> if s = [] then Inr st5 else report_strings L url html s st5) of
             Inl e \<Rightarrow> Inl (Raised e, st5)
           | Inr st6 \<Rightarrow> Inr (html, st6))"
  unfolding visit_def Let_def using f by simp

lemma visit_fields:
  assumes "visit L url depth phone email search_string st = Inl (oc, st') \<or>
           visit L url depth phone email search_string st = Inr (html, st')"
  shows "visited_urls st' = insert url (visited_urls st) \<and>
         requests st' = requests st @ [(url, depth)]"
proof -
  obtain h st3 where f: "fetch_html L url depth
      ((print (Crawling url) st)\<lparr>visited_urls := insert url (visited_urls st)\<rparr>) = (h, st3)"
    by (cases "fetch_html L url depth
      ((print (Crawling url) st)\<lparr>visited_urls := insert url (visited_urls st)\<rparr>)")
  from fetch_html_fields [OF f]
  have st3: "visited_urls st3 = insert url (visited_urls st)"
            "requests st3 = requests st @ [(url, depth)]" by simp_all
  define st5 where "st5 =
    (if email then report_email_addresses url h (if phone then report_phone_numbers url h st3 else st3)
     else (if phone then report_phone_numbers url h st3 else st3))"
  have st5: "visited_urls st5 = visited_urls st3" "requests st5 = requests st3"
    by (simp_all add: st5_def)
  define found where "found =
    (case search_string of None \<Rightarrow> Inr st5
     | Some s \<Rightarrow> if s = [] then Inr st5 else report_strings L url h s st5)"
  have v: "visit L url depth phone email search_string st =
     (if h = [] then Inl (Returned, st3)
      else case found of Inl e \<Rightarrow> Inl (Raised e, st5) | Inr st6 \<Rightarrow> Inr (h, st6))"
    by (simp only: visit_unfold [OF f] Let_def st5_def found_def)
  have found: "visited_urls st6 = visited_urls st5 \<and> requests st6 = requests st5"
    if "found = Inr st6" for st6
  proof (cases search_string)
    case None
    with that show ?thesis by (simp add: found_def)
  next
    case (Some s)
    with that report_strings_fields [of L url h s st5 st6] show ?thesis
      by (cases "s = []") (simp_all add: found_def)
  qed
  show ?thesis
  proof (cases "h = []")
    case True
    with assms v st3 show ?thesis by simp
  next
    case False
    show ?thesis
    proof (cases found)
      case (Inl e)
      with False assms v st3 st5 show ?thesis by simp
    next
      case (Inr st6)
      with False assms v have "st' = st6" by simp
      with found [OF Inr] st3 st5 show ?thesis by simp
    qed
  qed
qed

lemma grows_visit:
  assumes "visit L url depth phone email search_string st = Inl (oc, st') \<or>
           visit L url depth phone email search_string st = Inr (html, st')"
    and "url \<notin> visited_urls st"
  shows "grows st st'"
proof -
  from visit_fields [OF assms(1)]
  have "visited_urls st' = insert url (visited_urls st)"
    and "requests st' = requests st @ [(url, depth)]" by simp_all
  with assms(2) show ?thesis
    unfolding grows_def by (intro exI [of _ "[(url, depth)]"]) simp
qed

lemma grows_crawl_links:
  assumes crawl: "\<And>url depth search_string st.
      grows st (snd (crawl fuel L url base_url depth follow_external delay phone email search_string st))"
  shows "grows st (snd (crawl_links fuel L links base_url depth follow_external delay phone email st))"
proof (induction links arbitrary: st)
  case Nil
  show ?case by (simp add: grows_refl)
next
  case (Cons link links)
  show ?case
  proof (cases "delay < 0")
    case True
    then show ?thesis by (simp add: grows_refl)
  next
    case False
    obtain oc st' where c: "crawl fuel L link base_url (depth - 1) follow_external delay phone email None st = (oc, st')"
      by (cases "crawl fuel L link base_url (depth - 1) follow_external delay phone email None st")
    from crawl [of st link "depth - 1" None] c have g: "grows st st'" by simp
    show ?thesis
    proof (cases oc)
      case Returned
      with False c have "crawl_links fuel L (link # links) base_url depth follow_external delay phone email st
          = crawl_links fuel L links base_url depth follow_external delay phone email st'" by simp
      with g Cons.IH [of st'] show ?thesis by (auto intro: grows_trans)
    next
      case (Raised e)
      with False c g show ?thesis by simp
    next
      case Out_of_fuel
      with False c g show ?thesis by simp
    qed
  qed
qed

lemma grows_follow:
  assumes crawl: "\<And>url depth search_string st.
      grows st (snd (crawl fuel L url base_url depth follow_external delay phone email search_string st))"
  shows "grows st (snd (follow fuel L html base_url depth follow_external delay phone email st))"
proof (cases "get_links L html base_url follow_external")
  case (Inl e)
  then show ?thesis by (simp add: follow_def grows_refl)
next
  case (Inr links)
  have "grows st (snd (crawl_links fuel L (iteration L links) base_url depth follow_external delay phone email st))"
    by (rule grows_crawl_links) (rule crawl)
  with Inr show ?thesis by (simp add: follow_def)
qed

lemma grows_crawl:
  "grows st (snd (crawl fuel L url base_url depth follow_external delay phone email search_string st))"
proof (induction fuel arbitrary: url depth search_string st)
  case 0
  show ?case by (simp add: grows_refl)
next
  case (Suc fuel)
  show ?case
  proof (cases "depth = 0 \<or> url \<in> visited_urls st")
    case True
    then show ?thesis by (simp only: crawl_Suc if_True snd_conv grows_refl)
  next
    case False
    show ?thesis
    proof (cases "visit L url depth phone email search_string st")
      case (Inl stopped)
      obtain oc st' where "stopped = (oc, st')" by (cases stopped)
      with Inl False grows_visit [of L url depth phone email search_string st oc st']
      show ?thesis by (simp add: crawl_Suc del: crawl.simps)
    next
      case (Inr cont)
      obtain html st' where cont: "cont = (html, st')" by (cases cont)
      with Inr False grows_visit [of L url depth phone email search_string st _ st' html]
      have "grows st st'" by simp
      moreover have "grows st' (snd (follow fuel L html base_url depth follow_external delay phone email st'))"
        by (rule grows_follow) (rule Suc.IH)
      ultimately show ?thesis using Inr cont False
        by (simp add: crawl_Suc del: crawl.simps) (erule (1) grows_trans)
    qed
  qed
qed

section \<open>Each URL is requested once\<close>

text \<open>
  C1. Whatever the arguments and the state a call of \<open>crawl\<close> starts in, and wherever it
  ends (by returning, by an exception, or cut off in the middle), the requests it has made
  are for URLs that were not in the visited set when it started, no two of them are for the
  same URL, and the visited set has only grown, by exactly these URLs. So a run that starts
  with no request made requests every URL at most once.
\<close>

theorem crawl_requests_each_url_once:
  "(\<exists>new. requests (snd (crawl fuel L url base_url depth follow_external delay phone email
                             search_string st)) = requests st @ new \<and>
          distinct (map fst new) \<and>
          fst ` set new \<inter> visited_urls st = {} \<and>
          visited_urls (snd (crawl fuel L url base_url depth follow_external delay phone email
                               search_string st)) = visited_urls st \<union> fst ` set new) \<and>
   distinct (map fst (requests (snd (crawl fuel L url base_url depth follow_external delay phone
                                       email search_string start))))"
proof
  show "\<exists>new. requests (snd (crawl fuel L url base_url depth follow_external delay phone email
                             search_string st)) = requests st @ new \<and>
          distinct (map fst new) \<and>
          fst ` set new \<inter> visited_urls st = {} \<and>
          visited_urls (snd (crawl fuel L url base_url depth follow_external delay phone email
                               search_string st)) = visited_urls st \<union> fst ` set new"
    using grows_crawl [of st fuel L url base_url depth follow_external delay phone email
        search_string]
    by (simp only: grows_def)
  from grows_crawl [of start fuel L url base_url depth follow_external delay phone email
      search_string]
  show "distinct (map fst (requests (snd (crawl fuel L url base_url depth follow_external delay
      phone email search_string start))))"
    by (auto simp: grows_def start_def)
qed

section \<open>The depth of the requests\<close>

lemma no_deeper_refl: "no_deeper d st st"
  by (simp add: no_deeper_def)

lemma no_deeper_trans: "no_deeper d a b \<Longrightarrow> no_deeper d b c \<Longrightarrow> no_deeper d a c"
  unfolding no_deeper_def
  apply clarify
  subgoal for n1 n2
    apply (rule exI [of _ "n1 @ n2"])
    apply auto
    done
  done

lemma no_deeper_child: "no_deeper (d - 1) a b \<Longrightarrow> d \<noteq> 0 \<Longrightarrow> no_deeper d a b"
  unfolding no_deeper_def by fastforce

lemma no_deeper_visit:
  assumes "visit L url depth phone email search_string st = Inl (oc, st') \<or>
           visit L url depth phone email search_string st = Inr (html, st')"
    and "depth \<noteq> 0"
  shows "no_deeper depth st st'"
proof -
  from visit_fields [OF assms(1)]
  have "requests st' = requests st @ [(url, depth)]" by simp
  with assms(2) show ?thesis
    unfolding no_deeper_def by (intro exI [of _ "[(url, depth)]"]) simp
qed

lemma no_deeper_crawl_links:
  assumes crawl: "\<And>url depth search_string st.
      no_deeper depth st (snd (crawl fuel L url base_url depth follow_external delay phone email search_string st))"
  shows "no_deeper (depth - 1) st (snd (crawl_links fuel L links base_url depth follow_external delay phone email st))"
proof (induction links arbitrary: st)
  case Nil
  show ?case by (simp add: no_deeper_refl)
next
  case (Cons link links)
  show ?case
  proof (cases "delay < 0")
    case True
    then show ?thesis by (simp add: no_deeper_refl)
  next
    case False
    obtain oc st' where c: "crawl fuel L link base_url (depth - 1) follow_external delay phone email None st = (oc, st')"
      by (cases "crawl fuel L link base_url (depth - 1) follow_external delay phone email None st")
    from crawl [of "depth - 1" st link None] c have g: "no_deeper (depth - 1) st st'" by simp
    show ?thesis
    proof (cases oc)
      case Returned
      with False c have "crawl_links fuel L (link # links) base_url depth follow_external delay phone email st
          = crawl_links fuel L links base_url depth follow_external delay phone email st'" by simp
      with g Cons.IH [of st'] show ?thesis by (auto intro: no_deeper_trans)
    next
      case (Raised e)
      with False c g show ?thesis by simp
    next
      case Out_of_fuel
      with False c g show ?thesis by simp
    qed
  qed
qed

lemma no_deeper_follow:
  assumes crawl: "\<And>url depth search_string st.
      no_deeper depth st (snd (crawl fuel L url base_url depth follow_external delay phone email search_string st))"
  shows "no_deeper (depth - 1) st (snd (follow fuel L html base_url depth follow_external delay phone email st))"
proof (cases "get_links L html base_url follow_external")
  case (Inl e)
  then show ?thesis by (simp add: follow_def no_deeper_refl)
next
  case (Inr links)
  have "no_deeper (depth - 1) st (snd (crawl_links fuel L (iteration L links) base_url depth follow_external delay phone email st))"
    by (rule no_deeper_crawl_links) (rule crawl)
  with Inr show ?thesis by (simp add: follow_def)
qed

lemma no_deeper_crawl:
  "no_deeper depth st (snd (crawl fuel L url base_url depth follow_external delay phone email search_string st))"
proof (induction fuel arbitrary: url depth search_string st)
  case 0
  show ?case by (simp add: no_deeper_refl)
next
  case (Suc fuel)
  show ?case
  proof (cases "depth = 0 \<or> url \<in> visited_urls st")
    case True
    then show ?thesis by (simp only: crawl_Suc if_True snd_conv no_deeper_refl)
  next
    case False
    show ?thesis
    proof (cases "visit L url depth phone email search_string st")
      case (Inl stopped)
      obtain oc st' where "stopped = (oc, st')" by (cases stopped)
      with Inl False no_deeper_visit [of L url depth phone email search_string st oc st']
      show ?thesis by (simp add: crawl_Suc del: crawl.simps)
    next
      case (Inr cont)
      obtain html st' where cont: "cont = (html, st')" by (cases cont)
      with Inr False no_deeper_visit [of L url depth phone email search_string st _ st' html]
      have "no_deeper depth st st'" by simp
      moreover have "no_deeper (depth - 1) st' (snd (follow fuel L html base_url depth follow_external delay phone email st'))"
        by (rule no_deeper_follow) (rule Suc.IH)
      then have "no_deeper depth st' (snd (follow fuel L html base_url depth follow_external delay phone email st'))"
        using False by (auto intro: no_deeper_child)
      ultimately show ?thesis using Inr cont False
        by (simp add: crawl_Suc del: crawl.simps) (erule (1) no_deeper_trans)
    qed
  qed
qed

lemma visit_stops:
  "visit L url depth phone email search_string st = Inl (oc, st') \<Longrightarrow> oc \<noteq> Out_of_fuel"
proof -
  assume a: "visit L url depth phone email search_string st = Inl (oc, st')"
  obtain h st3 where f: "fetch_html L url depth
      ((print (Crawling url) st)\<lparr>visited_urls := insert url (visited_urls st)\<rparr>) = (h, st3)"
    by (cases "fetch_html L url depth
      ((print (Crawling url) st)\<lparr>visited_urls := insert url (visited_urls st)\<rparr>)")
  from a show ?thesis
    unfolding visit_unfold [OF f] Let_def
    by (auto split: if_splits sum.splits)
qed

lemma crawl_links_ends:
  assumes crawl: "\<And>url search_string st.
      fst (crawl fuel L url base_url (depth - 1) follow_external delay phone email search_string st) \<noteq> Out_of_fuel"
  shows "fst (crawl_links fuel L links base_url depth follow_external delay phone email st) \<noteq> Out_of_fuel"
proof (induction links arbitrary: st)
  case Nil
  show ?case by simp
next
  case (Cons link links)
  obtain oc st' where c: "crawl fuel L link base_url (depth - 1) follow_external delay phone email None st = (oc, st')"
    by (cases "crawl fuel L link base_url (depth - 1) follow_external delay phone email None st")
  from crawl [of link None st] c have "oc \<noteq> Out_of_fuel" by simp
  with c Cons.IH [of st'] show ?case
    by (cases oc) simp_all
qed

lemma follow_ends:
  assumes crawl: "\<And>url search_string st.
      fst (crawl fuel L url base_url (depth - 1) follow_external delay phone email search_string st) \<noteq> Out_of_fuel"
  shows "fst (follow fuel L html base_url depth follow_external delay phone email st) \<noteq> Out_of_fuel"
proof (cases "get_links L html base_url follow_external")
  case (Inl e)
  then show ?thesis by (simp add: follow_def)
next
  case (Inr links)
  have "fst (crawl_links fuel L (iteration L links) base_url depth follow_external delay phone email st)
          \<noteq> Out_of_fuel"
    by (rule crawl_links_ends) (rule crawl)
  with Inr show ?thesis by (simp add: follow_def)
qed

lemma crawl_ends:
  "0 \<le> depth \<Longrightarrow> nat depth < fuel \<Longrightarrow>
   fst (crawl fuel L url base_url depth follow_external delay phone email search_string st) \<noteq> Out_of_fuel"
proof (induction fuel arbitrary: url depth search_string st)
  case 0
  then show ?case by simp
next
  case (Suc fuel)
  show ?case
  proof (cases "depth = 0 \<or> url \<in> visited_urls st")
    case True
    then show ?thesis by (simp only: crawl_Suc if_True fst_conv) simp
  next
    case False
    with Suc.prems have d: "0 \<le> depth - 1" "nat (depth - 1) < fuel" by auto
    show ?thesis
    proof (cases "visit L url depth phone email search_string st")
      case (Inl stopped)
      obtain oc st' where "stopped = (oc, st')" by (cases stopped)
      with Inl False visit_stops [of L url depth phone email search_string st oc st']
      show ?thesis by (simp add: crawl_Suc del: crawl.simps)
    next
      case (Inr cont)
      obtain html st' where cont: "cont = (html, st')" by (cases cont)
      have "fst (follow fuel L html base_url depth follow_external delay phone email st') \<noteq> Out_of_fuel"
        by (rule follow_ends) (rule Suc.IH [OF d])
      with Inr cont False show ?thesis
        by (simp add: crawl_Suc del: crawl.simps)
    qed
  qed
qed

lemma hops_after_link:
  assumes "hops L base_url follow_external link n v"
    and "http_get L url = Some html" "html \<noteq> []"
    and "get_links L html base_url follow_external = Inr links"
    and "link \<in> set (iteration L links)"
  shows "hops L base_url follow_external url (Suc n) v"
  using assms(1)
proof (induction rule: hops.induct)
  case here
  from hops.here assms(2-5) show ?case by (rule hops.link)
next
  case (link n page html' links' v)
  from link.IH link.hyps(2-5) show ?case by (rule hops.link)
qed

lemma reached_refl: "reached L base_url follow_external urls d st st"
  by (simp add: reached_def)

lemma reached_trans:
  "reached L base_url follow_external urls d a b \<Longrightarrow>
   reached L base_url follow_external urls d b c \<Longrightarrow>
   reached L base_url follow_external urls d a c"
  unfolding reached_def
  apply clarify
  subgoal for n1 n2
    apply (rule exI [of _ "n1 @ n2"])
    apply auto
    done
  done

lemma reached_mono:
  "reached L base_url follow_external urls d a b \<Longrightarrow> urls \<subseteq> urls' \<Longrightarrow>
   reached L base_url follow_external urls' d a b"
  unfolding reached_def by fastforce

lemma reached_from_links:
  assumes "reached L base_url follow_external (set (iteration L links)) (d - 1) a b"
    and "http_get L url = Some html" "html \<noteq> []"
    and "get_links L html base_url follow_external = Inr links"
  shows "reached L base_url follow_external {url} d a b"
proof -
  from assms(1) obtain new where new: "requests b = requests a @ new"
    "\<forall>(v, r) \<in> set new.
       \<exists>link \<in> set (iteration L links).
       \<exists>n. int n = d - 1 - r \<and> hops L base_url follow_external link n v"
    unfolding reached_def by blast
  have "\<exists>n. int n = d - r \<and> hops L base_url follow_external url n v"
    if "(v, r) \<in> set new" for v r
  proof -
    from new(2) that obtain link n
      where l: "link \<in> set (iteration L links)"
        "int n = d - 1 - r" "hops L base_url follow_external link n v"
      by fastforce
    from hops_after_link [OF l(3) assms(2,3,4) l(1)] l(2) show ?thesis
      by (intro exI [of _ "Suc n"]) simp
  qed
  with new(1) show ?thesis unfolding reached_def by fastforce
qed

lemma visit_text:
  assumes "visit L url depth phone email search_string st = Inr (html, st')"
  shows "http_get L url = Some html \<and> html \<noteq> []"
proof -
  let ?s = "(print (Crawling url) st)\<lparr>visited_urls := insert url (visited_urls st)\<rparr>"
  obtain h s3 where f: "fetch_html L url depth ?s = (h, s3)"
    by (cases "fetch_html L url depth ?s")
  from assms have "h = html \<and> html \<noteq> []"
    unfolding visit_unfold [OF f] Let_def by (auto split: if_splits sum.splits)
  moreover from f have "h \<noteq> [] \<longrightarrow> http_get L url = Some h"
    by (auto simp: fetch_html_def Let_def split: option.splits)
  ultimately show ?thesis by simp
qed

lemma reached_visit:
  assumes "visit L url depth phone email search_string st = Inl (oc, st') \<or>
           visit L url depth phone email search_string st = Inr (html, st')"
  shows "reached L base_url follow_external {url} depth st st'"
proof -
  from visit_fields [OF assms]
  have "requests st' = requests st @ [(url, depth)]" by simp
  moreover have "hops L base_url follow_external url 0 url" by (rule hops.here)
  ultimately show ?thesis
    unfolding reached_def by (intro exI [of _ "[(url, depth)]"]) auto
qed

lemma reached_crawl_links:
  assumes crawl: "\<And>url depth search_string st.
      reached L base_url follow_external {url} depth st
        (snd (crawl fuel L url base_url depth follow_external delay phone email search_string st))"
  shows "reached L base_url follow_external (set links) (depth - 1) st
           (snd (crawl_links fuel L links base_url depth follow_external delay phone email st))"
proof (induction links arbitrary: st)
  case Nil
  show ?case by (simp add: reached_refl)
next
  case (Cons link links)
  show ?case
  proof (cases "delay < 0")
    case True
    then show ?thesis by (simp add: reached_refl)
  next
    case False
    obtain oc st' where c: "crawl fuel L link base_url (depth - 1) follow_external delay phone email None st = (oc, st')"
      by (cases "crawl fuel L link base_url (depth - 1) follow_external delay phone email None st")
    from crawl [of link "depth - 1" st None] c
    have "reached L base_url follow_external {link} (depth - 1) st st'" by simp
    then have g: "reached L base_url follow_external (set (link # links)) (depth - 1) st st'"
      by (rule reached_mono) simp
    show ?thesis
    proof (cases oc)
      case Returned
      with False c have e: "crawl_links fuel L (link # links) base_url depth follow_external delay phone email st
          = crawl_links fuel L links base_url depth follow_external delay phone email st'" by simp
      have "reached L base_url follow_external (set (link # links)) (depth - 1) st'
          (snd (crawl_links fuel L links base_url depth follow_external delay phone email st'))"
        by (rule reached_mono [OF Cons.IH]) auto
      with g show ?thesis unfolding e by (rule reached_trans)
    next
      case (Raised e)
      with False c g show ?thesis by simp
    next
      case Out_of_fuel
      with False c g show ?thesis by simp
    qed
  qed
qed

lemma reached_follow:
  assumes crawl: "\<And>url depth search_string st.
      reached L base_url follow_external {url} depth st
        (snd (crawl fuel L url base_url depth follow_external delay phone email search_string st))"
    and "http_get L url = Some html" "html \<noteq> []"
  shows "reached L base_url follow_external {url} depth st
           (snd (follow fuel L html base_url depth follow_external delay phone email st))"
proof (cases "get_links L html base_url follow_external")
  case (Inl e)
  then show ?thesis by (simp add: follow_def reached_refl)
next
  case (Inr links)
  have "reached L base_url follow_external (set (iteration L links)) (depth - 1) st
          (snd (crawl_links fuel L (iteration L links) base_url depth follow_external delay phone
                  email st))"
    by (rule reached_crawl_links) (rule crawl)
  then have "reached L base_url follow_external {url} depth st
          (snd (crawl_links fuel L (iteration L links) base_url depth follow_external delay phone
                  email st))"
    using assms(2,3) Inr by (rule reached_from_links)
  with Inr show ?thesis by (simp add: follow_def)
qed

lemma reached_crawl:
  "reached L base_url follow_external {url} depth st
     (snd (crawl fuel L url base_url depth follow_external delay phone email search_string st))"
proof (induction fuel arbitrary: url depth search_string st)
  case 0
  show ?case by (simp add: reached_refl)
next
  case (Suc fuel)
  show ?case
  proof (cases "depth = 0 \<or> url \<in> visited_urls st")
    case True
    then show ?thesis by (simp only: crawl_Suc if_True snd_conv reached_refl)
  next
    case False
    show ?thesis
    proof (cases "visit L url depth phone email search_string st")
      case (Inl stopped)
      obtain oc st' where "stopped = (oc, st')" by (cases stopped)
      with Inl False reached_visit [of L url depth phone email search_string st oc st' _ base_url
          follow_external]
      show ?thesis by (simp add: crawl_Suc del: crawl.simps)
    next
      case (Inr cont)
      obtain html st' where cont: "cont = (html, st')" by (cases cont)
      with Inr have v: "visit L url depth phone email search_string st = Inr (html, st')" by simp
      from reached_visit [of L url depth phone email search_string st _ st' html base_url
          follow_external] v
      have 1: "reached L base_url follow_external {url} depth st st'" by simp
      from visit_text [OF v] have t: "http_get L url = Some html" "html \<noteq> []" by simp_all
      have "reached L base_url follow_external {url} depth st'
          (snd (follow fuel L html base_url depth follow_external delay phone email st'))"
        using Suc.IH t by (rule reached_follow)
      with 1 have "reached L base_url follow_external {url} depth st
          (snd (follow fuel L html base_url depth follow_external delay phone email st'))"
        by (rule reached_trans)
      with v False show ?thesis
        by (simp add: crawl_Suc del: crawl.simps)
    qed
  qed
qed

lemma requests_are_reached:
  "\<exists>new. requests (snd (crawl fuel L url base_url d follow_external delay phone email
                           search_string st)) = requests st @ new \<and>
         (\<forall>(v, r) \<in> set new. \<exists>n. int n = d - r \<and> hops L base_url follow_external url n v)"
  using reached_crawl [of L base_url follow_external url d st fuel delay phone email search_string]
  unfolding reached_def by fastforce

text \<open>
  C2. For a configured depth \<open>d\<close> that is not negative, every request of the run is made by a
  call whose remaining depth \<open>r\<close> satisfies \<open>0 < r \<le> d\<close>, for a URL that is reached from the
  seed over \<open>d - r\<close> links, which is less than \<open>d\<close>. A call with remaining depth \<open>0\<close> returns
  at once and leaves the state as it is, so it makes no request; the calls made for the
  links of a page run with a depth one less than that of the page. With more fuel than \<open>d\<close>
  the run is not cut off.
\<close>

theorem crawl_depth_bound:
  assumes "0 \<le> d"
  shows "(\<exists>new. requests (snd (crawl fuel L url base_url d follow_external delay phone email
                                 search_string st)) = requests st @ new \<and>
               (\<forall>(v, r) \<in> set new. 0 < r \<and> r \<le> d \<and>
                  (\<exists>n. int n = d - r \<and> hops L base_url follow_external url n v))) \<and>
         crawl (Suc fuel) L url base_url 0 follow_external delay phone email search_string st
           = (Returned, st) \<and>
         (\<exists>new. requests (snd (crawl_links fuel L links base_url d follow_external delay phone
                                 email st)) = requests st @ new \<and>
               (\<forall>(v, r) \<in> set new. r \<le> d - 1)) \<and>
         (nat d < fuel \<longrightarrow>
            fst (crawl fuel L url base_url d follow_external delay phone email search_string st)
              \<noteq> Out_of_fuel)"
proof (intro conjI)
  let ?st' = "snd (crawl fuel L url base_url d follow_external delay phone email search_string st)"
  from no_deeper_crawl [of d st fuel L url base_url follow_external delay phone email search_string]
  obtain new where new: "requests ?st' = requests st @ new"
    "\<forall>(v, r) \<in> set new. r \<le> d \<and> (0 \<le> d \<longrightarrow> 0 < r)"
    unfolding no_deeper_def by blast
  from requests_are_reached [of fuel L url base_url d follow_external delay phone email
      search_string st]
  obtain new' where new': "requests ?st' = requests st @ new'"
    "\<forall>(v, r) \<in> set new'. \<exists>n. int n = d - r \<and> hops L base_url follow_external url n v"
    by blast
  from new(1) new'(1) have "new' = new" by simp
  with new new'(2) assms
  have "\<forall>(v, r) \<in> set new. 0 < r \<and> r \<le> d \<and>
          (\<exists>n. int n = d - r \<and> hops L base_url follow_external url n v)"
    by fastforce
  with new(1)
  show "\<exists>new. requests ?st' = requests st @ new \<and>
               (\<forall>(v, r) \<in> set new. 0 < r \<and> r \<le> d \<and>
                  (\<exists>n. int n = d - r \<and> hops L base_url follow_external url n v))"
    by blast
  show "crawl (Suc fuel) L url base_url 0 follow_external delay phone email search_string st
           = (Returned, st)"
    by simp
  have "no_deeper (d - 1) st (snd (crawl_links fuel L links base_url d follow_external delay phone
                                 email st))"
    by (rule no_deeper_crawl_links) (rule no_deeper_crawl)
  then show "\<exists>new. requests (snd (crawl_links fuel L links base_url d follow_external delay phone
                                 email st)) = requests st @ new \<and>
               (\<forall>(v, r) \<in> set new. r \<le> d - 1)"
    unfolding no_deeper_def by fastforce
  from assms show "nat d < fuel \<longrightarrow>
            fst (crawl fuel L url base_url d follow_external delay phone email search_string st)
              \<noteq> Out_of_fuel"
    by (simp add: crawl_ends)
qed

theorem crawl_depth_bound_witness:
  "(0::int) \<le> 2 \<and>
   (\<exists>new. requests (snd (crawl 3 links_site ''https://a.com/'' ''https://a.com/'' 2 False 1 False False
                                 None start)) = requests start @ new \<and>
               (\<forall>(v, r) \<in> set new. 0 < r \<and> r \<le> 2 \<and>
                  (\<exists>n. int n = 2 - r \<and> hops links_site ''https://a.com/'' False ''https://a.com/'' n v))) \<and>
   fst (crawl 3 links_site ''https://a.com/'' ''https://a.com/'' 2 False 1 False False None start)
     \<noteq> Out_of_fuel"
  using crawl_depth_bound [of 2 3 links_site "''https://a.com/''" "''https://a.com/''" False 1 False
      False None start "[]"]
  by simp

section \<open>Sets kept as lists\<close>

lemma set_set_add: "set (set_add s x) = insert x (set s)"
  by (auto simp: set_add_def)

lemma distinct_set_add: "distinct s \<Longrightarrow> distinct (set_add s x)"
  by (simp add: set_add_def)

lemma set_foldl_set_add:
  "set (foldl (\<lambda>s m. if P m then set_add s (f m) else s) s0 ms) = set s0 \<union> f ` {m \<in> set ms. P m}"
  by (induction ms arbitrary: s0) (auto simp: set_set_add)

lemma distinct_foldl_set_add:
  "distinct s0 \<Longrightarrow> distinct (foldl (\<lambda>s m. if P m then set_add s (f m) else s) s0 ms)"
  by (induction ms arbitrary: s0) (simp_all add: distinct_set_add)

section \<open>What a match is\<close>

text \<open>
  A successful repetition has taken a run of characters of its class, within its bounds, and
  the rest of the pattern has succeeded on what follows.
\<close>

lemma greedy_sound:
  "greedy p lo hi prev rest k = Some v \<Longrightarrow>
   \<exists>xs rest' prev'. rest = xs @ rest' \<and> (\<forall>c \<in> set xs. p c) \<and> lo \<le> length xs \<and>
     (\<forall>h. hi = Some h \<longrightarrow> length xs \<le> h) \<and> k prev' rest' = Some v"
proof (induction rest arbitrary: lo hi prev)
  case Nil
  then show ?case by (auto split: if_splits)
next
  case (Cons c cs)
  show ?case
  proof (cases "p c \<and> hi \<noteq> Some 0")
    case True
    show ?thesis
    proof (cases "greedy p (lo - 1) (map_option (\<lambda>h. h - 1) hi) (Some c) cs k")
      case None
      with True Cons.prems have "lo = 0" "k prev (c # cs) = Some v"
        by (auto split: if_splits)
      then show ?thesis
        by (intro exI [of _ "[]"] exI [of _ "c # cs"] exI [of _ prev]) auto
    next
      case (Some r)
      with True Cons.prems have "r = v" by simp
      with Some Cons.IH [of "lo - 1" "map_option (\<lambda>h. h - 1) hi" "Some c"]
      obtain xs rest' prev' where x: "cs = xs @ rest'" "\<forall>c \<in> set xs. p c" "lo - 1 \<le> length xs"
        "\<forall>h. map_option (\<lambda>h. h - 1) hi = Some h \<longrightarrow> length xs \<le> h" "k prev' rest' = Some v"
        by blast
      have "\<forall>h. hi = Some h \<longrightarrow> length (c # xs) \<le> h"
      proof (intro allI impI)
        fix h assume h: "hi = Some h"
        with True have "h \<noteq> 0" by simp
        moreover from x(4) h have "length xs \<le> h - 1" by simp
        ultimately show "length (c # xs) \<le> h" by simp
      qed
      with x True show ?thesis
        by (intro exI [of _ "c # xs"] exI [of _ rest'] exI [of _ prev']) auto
    qed
  next
    case False
    with Cons.prems have "lo = 0" "k prev (c # cs) = Some v"
      by (auto split: if_splits)
    then show ?thesis
      by (intro exI [of _ "[]"] exI [of _ "c # cs"] exI [of _ prev]) auto
  qed
qed

lemma scan_items:
  "(m, g) \<in> set (scan M n before body) \<Longrightarrow>
   \<exists>adv before' text' len. M adv before' text' = Some (len, g) \<and> m = take len text'"
proof (induction M n before body rule: scan.induct)
  case (1 M n before)
  then show ?case by simp
next
  case (2 M n before c cs)
  then show ?case by simp
next
  case (3 M before body)
  from "3.prems" have mem: "(m, g) \<in> set
     (case M False before body of
        None \<Rightarrow> (case body of [] \<Rightarrow> [] | c # cs \<Rightarrow> scan M 0 (c # before) cs)
      | Some (len, g) \<Rightarrow>
          (take len body, g) #
          (if 0 < len then scan M len before body
           else (case M True before body of
                   None \<Rightarrow> (case body of [] \<Rightarrow> [] | c # cs \<Rightarrow> scan M 0 (c # before) cs)
                 | Some (len', g') \<Rightarrow>
                     if 0 < len' then (take len' body, g') # scan M len' before body
                     else (case body of [] \<Rightarrow> [] | c # cs \<Rightarrow> scan M 0 (c # before) cs))))"
    by (subst (asm) scan.simps(3))
  let ?goal = ?case
  let ?next = "case body of [] \<Rightarrow> [] | c # cs \<Rightarrow> scan M 0 (c # before) cs"
  have tail: ?goal if "(m, g) \<in> set ?next"
    and ih: "\<And>c cs. body = c # cs \<Longrightarrow> (m, g) \<in> set (scan M 0 (c # before) cs) \<Longrightarrow> ?goal"
  proof (cases body)
    case Nil
    with that(1) show ?thesis by simp
  next
    case (Cons c cs)
    with that(1) have "(m, g) \<in> set (scan M 0 (c # before) cs)" by (simp del: scan.simps)
    with Cons ih show ?thesis by blast
  qed
  show ?case
  proof (cases "M False before body")
    case None
    with mem have "(m, g) \<in> set ?next" by (simp del: scan.simps)
    then show ?thesis
      by (rule tail) (rule "3.IH"(1) [OF None])
  next
    case (Some a)
    obtain len g1 where a: "a = (len, g1)" by (cases a)
    note first = Some [unfolded a]
    have h1: ?goal if "(m, g) = (take len body, g1)"
      using that first by blast
    show ?thesis
    proof (cases "0 < len")
      case True
      with mem first have "(m, g) = (take len body, g1) \<or> (m, g) \<in> set (scan M len before body)"
        by (simp del: scan.simps)
      with h1 "3.IH"(2) [OF first refl True] show ?thesis by blast
    next
      case False
      show ?thesis
      proof (cases "M True before body")
        case None
        with mem first False have "(m, g) = (take len body, g1) \<or> (m, g) \<in> set ?next"
          by (simp del: scan.simps)
        then show ?thesis
        proof
          assume "(m, g) = (take len body, g1)"
          then show ?thesis by (rule h1)
        next
          assume "(m, g) \<in> set ?next"
          then show ?thesis
            by (rule tail) (rule "3.IH"(3) [OF first refl False None])
        qed
      next
        case (Some b)
        obtain len' g2 where b: "b = (len', g2)" by (cases b)
        note second = Some [unfolded b]
        have h2: ?goal if "(m, g) = (take len' body, g2)"
          using that second by blast
        show ?thesis
        proof (cases "0 < len'")
          case True
          with mem first False second
          have "(m, g) = (take len body, g1) \<or> (m, g) = (take len' body, g2) \<or>
                (m, g) \<in> set (scan M len' before body)"
            by (simp del: scan.simps)
          with h1 h2 "3.IH"(4) [OF first refl False second refl True]
          show ?thesis by blast
        next
          case len': False
          with mem first False second
          have "(m, g) = (take len body, g1) \<or> (m, g) \<in> set ?next"
            by (simp del: scan.simps)
          then show ?thesis
          proof
            assume "(m, g) = (take len body, g1)"
            then show ?thesis by (rule h1)
          next
            assume "(m, g) \<in> set ?next"
            then show ?thesis
              by (rule tail) (rule "3.IH"(5) [OF first refl False second refl len'])
          qed
        qed
      qed
    qed
  qed
qed

lemma greedy_soundE:
  assumes "greedy p lo hi prev rest k = Some v"
  obtains xs rest' prev' where "rest = xs @ rest'" "\<forall>c \<in> set xs. p c" "lo \<le> length xs"
    "k prev' rest' = Some v"
  using greedy_sound [OF assms] by blast

lemma chr_stepE:
  assumes "(case rest of [] \<Rightarrow> None | c # cs \<Rightarrow> if one_of [x] c then F c cs else None) = Some v"
  obtains cs where "rest = x # cs" "F x cs = Some v"
  using assms by (cases rest) (auto split: if_splits simp: one_of_def)

lemma email_validation_shape:
  assumes "re_match email_validation e \<noteq> None"
  shows "\<exists>l d t nl. e = l @ CHR ''@'' # d @ CHR ''.'' # t @ nl \<and>
           l \<noteq> [] \<and> (\<forall>c \<in> set l. local_part c) \<and>
           d \<noteq> [] \<and> (\<forall>c \<in> set d. domain_part c) \<and>
           2 \<le> length t \<and> (\<forall>c \<in> set t. lower c \<or> upper c) \<and>
           (nl = [] \<or> nl = [CHR 0x0A])"
proof -
  from assms obtain v where "re_match email_validation e = Some v" by auto
  then show ?thesis
    unfolding re_match_def match_at_def email_validation_def
    apply simp
    apply (erule greedy_soundE)
    apply (erule chr_stepE)
    apply (erule greedy_soundE)
    apply (erule chr_stepE)
    apply (erule greedy_soundE)
    apply hypsubst
    apply (intro exI conjI)
           apply (rule refl)
          apply (auto split: if_splits)
    done
qed

lemma email_pattern_shape:
  assumes "match_at email_pattern adv prev body = Some (len, g)"
  shows "\<exists>l d t rest. body = l @ CHR ''@'' # d @ CHR ''.'' # t @ rest \<and>
           len = length body - length rest \<and>
           t \<noteq> [] \<and> (\<forall>c \<in> set t. upper c \<or> one_of ''|'' c \<or> lower c)"
  using assms
  unfolding match_at_def email_pattern_def
  apply (simp split: if_splits)
  apply (erule greedy_soundE)
  apply (erule chr_stepE)
  apply (erule greedy_soundE)
  apply (erule chr_stepE)
  apply (erule greedy_soundE)
  apply hypsubst
  apply (intro exI conjI)
     apply (rule refl)
    apply (auto split: if_splits)
  done

section \<open>The phone number extractor\<close>

lemma set_find_phone_numbers:
  "set (find_phone_numbers html) =
     concat ` {m \<in> set (findall_groups phone_pattern 3 html). digit_count (concat m) \<in> {10, 11}}"
  unfolding find_phone_numbers_def Let_def
  by (simp only: set_foldl_set_add [where f = concat and P = "\<lambda>m. digit_count (concat m) \<in> {10, 11}"]) simp

text \<open>
  C7. Every string that \<open>find_phone_numbers\<close> returns has ten or eleven digits once its
  other characters are removed. The run \<^verbatim>\<open>5551234567\<close> inside a sentence is returned, and
  it has ten digits; the text \<^verbatim>\<open>123\<close> gives nothing.
\<close>

theorem phone_numbers_have_ten_or_eleven_digits:
  "(\<forall>number \<in> set (find_phone_numbers html). digit_count number = 10 \<or> digit_count number = 11) \<and>
   ''5551234567'' \<in> set (find_phone_numbers ''Call us on 5551234567 today'') \<and>
   digit_count ''5551234567'' = 10 \<and>
   find_phone_numbers ''123'' = []"
proof (intro conjI)
  show "\<forall>number \<in> set (find_phone_numbers html). digit_count number = 10 \<or> digit_count number = 11"
    by (auto simp: set_find_phone_numbers)
  show "''5551234567'' \<in> set (find_phone_numbers ''Call us on 5551234567 today'')"
    by code_simp
  show "digit_count ''5551234567'' = 10"
    by code_simp
  show "find_phone_numbers ''123'' = []"
    by code_simp
qed

theorem phone_numbers_have_ten_or_eleven_digits_witness:
  "''+1 (555) 123-4567'' \<in> set (find_phone_numbers ''tel +1 (555) 123-4567.'') \<and>
   digit_count ''+1 (555) 123-4567'' = 11"
proof -
  have m: "''+1 (555) 123-4567'' \<in> set (find_phone_numbers ''tel +1 (555) 123-4567.'')"
    by code_simp
  have "digit_count ''+1 (555) 123-4567'' \<noteq> 10"
    by code_simp
  with m phone_numbers_have_ten_or_eleven_digits [of "''tel +1 (555) 123-4567.''"]
  show ?thesis by blast
qed

section \<open>The email address extractor\<close>

lemma set_find_email_addresses:
  "set (find_email_addresses html) =
     {e \<in> set (findall email_pattern html). re_match email_validation e \<noteq> None}"
  unfolding find_email_addresses_def Let_def
  by (simp only: set_foldl_set_add [where f = "\<lambda>e. e" and P = "\<lambda>e. re_match email_validation e \<noteq> None"]) auto

lemma findall_email_pattern_end:
  assumes "e \<in> set (findall email_pattern html)"
  shows "e \<noteq> [] \<and> last e \<noteq> CHR 0x0A"
proof -
  from assms obtain g where "(e, g) \<in> set (scan (compiled email_pattern 0) 0 [] html)"
    unfolding findall_def by (auto simp del: scan.simps)
  from scan_items [OF this] obtain adv before' text' len
    where c: "compiled email_pattern 0 adv before' text' = Some (len, g)" and e: "e = take len text'"
    by blast
  from c obtain prev' g' where m: "match_at email_pattern adv prev' text' = Some (len, g')"
    unfolding compiled_def by auto
  from email_pattern_shape [OF m] obtain l d t rest
    where t: "text' = l @ CHR ''@'' # d @ CHR ''.'' # t @ rest" "len = length text' - length rest"
      "t \<noteq> []" "\<forall>c \<in> set t. upper c \<or> one_of ''|'' c \<or> lower c"
    by blast
  from t(1,2) e have "e = l @ CHR ''@'' # d @ CHR ''.'' # t" by simp
  moreover from t(3,4) have "upper (last t) \<or> one_of ''|'' (last t) \<or> lower (last t)" by simp
  then have "last t \<noteq> CHR 0x0A" by (auto simp: upper_def lower_def one_of_def)
  ultimately show ?thesis using t(3) by simp
qed

lemma find_email_addresses_shape:
  assumes "e \<in> set (find_email_addresses html)"
  shows "\<exists>l d t. e = l @ ''@'' @ d @ ''.'' @ t \<and>
           l \<noteq> [] \<and> (\<forall>c \<in> set l. local_part c) \<and>
           d \<noteq> [] \<and> (\<forall>c \<in> set d. domain_part c) \<and>
           2 \<le> length t \<and> (\<forall>c \<in> set t. lower c \<or> upper c)"
proof -
  from assms have f: "e \<in> set (findall email_pattern html)"
    and v: "re_match email_validation e \<noteq> None"
    by (simp_all add: set_find_email_addresses)
  from email_validation_shape [OF v] obtain l d t nl
    where s: "e = l @ CHR ''@'' # d @ CHR ''.'' # t @ nl" "l \<noteq> []" "\<forall>c \<in> set l. local_part c"
      "d \<noteq> []" "\<forall>c \<in> set d. domain_part c" "2 \<le> length t" "\<forall>c \<in> set t. lower c \<or> upper c"
      "nl = [] \<or> nl = [CHR 0x0A]"
    by blast
  have "nl = []"
  proof (rule ccontr)
    assume "nl \<noteq> []"
    with s(8) have "nl = [CHR 0x0A]" by simp
    with s(1) have "last e = CHR 0x0A" by simp
    with findall_email_pattern_end [OF f] show False by simp
  qed
  with s show ?thesis by auto
qed

text \<open>
  C8. \<^verbatim>\<open>user@example.com\<close> in a sentence is returned. Whatever the text,
  \<^verbatim>\<open>user@@example.com\<close> and \<^verbatim>\<open>user@example\<close> are never returned, and a text that holds one
  of them gives nothing. Every address returned has passed the anchored \<^verbatim>\<open>re.match\<close>, and
  it is, from its first character to its last, a local part, the at sign, a domain, a dot
  and at least two letters.
\<close>

theorem email_addresses_are_validated:
  "''user@example.com'' \<in> set (find_email_addresses ''Write to user@example.com today'') \<and>
   ''user@@example.com'' \<notin> set (find_email_addresses html) \<and>
   ''user@example'' \<notin> set (find_email_addresses html) \<and>
   find_email_addresses ''Write to user@@example.com today'' = [] \<and>
   find_email_addresses ''Write to user@example today'' = [] \<and>
   (\<forall>e \<in> set (find_email_addresses html).
      re_match email_validation e \<noteq> None \<and>
      (\<exists>l d t. e = l @ ''@'' @ d @ ''.'' @ t \<and>
         l \<noteq> [] \<and> (\<forall>c \<in> set l. local_part c) \<and>
         d \<noteq> [] \<and> (\<forall>c \<in> set d. domain_part c) \<and>
         2 \<le> length t \<and> (\<forall>c \<in> set t. lower c \<or> upper c)))"
proof (intro conjI)
  show "''user@example.com'' \<in> set (find_email_addresses ''Write to user@example.com today'')"
    by code_simp
  have "re_match email_validation ''user@@example.com'' = None" by code_simp
  then show "''user@@example.com'' \<notin> set (find_email_addresses html)"
    by (simp add: set_find_email_addresses)
  have "re_match email_validation ''user@example'' = None" by code_simp
  then show "''user@example'' \<notin> set (find_email_addresses html)"
    by (simp add: set_find_email_addresses)
  show "find_email_addresses ''Write to user@@example.com today'' = []" by code_simp
  show "find_email_addresses ''Write to user@example today'' = []" by code_simp
  show "\<forall>e \<in> set (find_email_addresses html).
      re_match email_validation e \<noteq> None \<and>
      (\<exists>l d t. e = l @ ''@'' @ d @ ''.'' @ t \<and>
         l \<noteq> [] \<and> (\<forall>c \<in> set l. local_part c) \<and>
         d \<noteq> [] \<and> (\<forall>c \<in> set d. domain_part c) \<and>
         2 \<le> length t \<and> (\<forall>c \<in> set t. lower c \<or> upper c))"
    using find_email_addresses_shape [of _ html]
    by (auto simp: set_find_email_addresses)
qed

theorem email_addresses_are_validated_witness:
  "''user@example.com'' \<in> set (find_email_addresses ''Write to user@example.com today'') \<and>
   re_match email_validation ''user@example.com'' \<noteq> None \<and>
   (\<exists>l d t. ''user@example.com'' = l @ ''@'' @ d @ ''.'' @ t \<and>
         l \<noteq> [] \<and> (\<forall>c \<in> set l. local_part c) \<and>
         d \<noteq> [] \<and> (\<forall>c \<in> set d. domain_part c) \<and>
         2 \<le> length t \<and> (\<forall>c \<in> set t. lower c \<or> upper c))"
  using email_addresses_are_validated [of "''Write to user@example.com today''"]
  by blast

section \<open>The extractors on every text\<close>

lemma findall_items_empty_text: "findall_items m [] = [] \<longleftrightarrow> m False [] [] = None"
  by (auto simp: findall_items_def split: option.splits)

text \<open>
  C6, as the program has it. The phone and email extractors have fixed patterns: they
  return a list for every text, the empty list for the empty text. \<open>find_strings\<close> hands the
  pattern it is given to the regular expression engine, whatever the library \<open>L\<close> is: with
  a pattern that the engine compiles it returns a list on every text, and on the empty text
  this list is empty exactly when the pattern has no match there.
\<close>

theorem extractors_on_every_text:
  "find_phone_numbers [] = [] \<and>
   find_email_addresses [] = [] \<and>
   (re_compile_ignorecase L pattern \<noteq> None \<longrightarrow>
      (\<exists>found. find_strings L html pattern = Inr found)) \<and>
   (re_compile_ignorecase L pattern = Some m \<longrightarrow>
      (find_strings L [] pattern = Inr [] \<longleftrightarrow> m False [] [] = None))"
proof (intro conjI)
  show "find_phone_numbers [] = []" by code_simp
  show "find_email_addresses [] = []" by code_simp
  show "re_compile_ignorecase L pattern \<noteq> None \<longrightarrow>
      (\<exists>found. find_strings L html pattern = Inr found)"
    by (auto simp: find_strings_def Let_def)
  show "re_compile_ignorecase L pattern = Some m \<longrightarrow>
      (find_strings L [] pattern = Inr [] \<longleftrightarrow> m False [] [] = None)"
    by (simp add: find_strings_def Let_def findall_items_empty_text)
qed

theorem extractors_on_every_text_witness:
  "(\<exists>found. find_strings search_site ''Foo food'' ''fo+'' = Inr found) \<and>
   find_strings search_site [] ''fo+'' = Inr [] \<and>
   find_strings search_site [] ''a?'' \<noteq> Inr []"
proof -
  define fo where "fo = compiled (Seq (Chr (\<lambda>t. to_lower t = to_lower CHR ''f''))
      (Seq (Rep (\<lambda>t. to_lower t = to_lower CHR ''o'') 1 None) Eps)) 0"
  define a where "a = compiled (Seq (Rep (\<lambda>t. to_lower t = to_lower CHR ''a'') 0 (Some 1)) Eps) 0"
  have 1: "re_compile_ignorecase search_site ''fo+'' = Some fo"
    by (simp add: search_site_def site_def simple_compile_def fo_def)
  have 2: "re_compile_ignorecase search_site ''a?'' = Some a"
    by (simp add: search_site_def site_def simple_compile_def a_def)
  have 3: "fo False [] [] = None"
    by (simp add: fo_def compiled_def match_at_def)
  have 4: "a False [] [] \<noteq> None"
    by (simp add: a_def compiled_def match_at_def)
  from 1 3 extractors_on_every_text [of search_site "''fo+''" "''Foo food''" fo]
  have "(\<exists>found. find_strings search_site ''Foo food'' ''fo+'' = Inr found) \<and>
        find_strings search_site [] ''fo+'' = Inr []"
    by simp
  moreover from 2 4 extractors_on_every_text [of search_site "''a?''" "[]" a]
  have "find_strings search_site [] ''a?'' \<noteq> Inr []"
    by simp
  ultimately show ?thesis by simp
qed

text \<open>
  The claim C6 as it is written fails for the custom pattern: the pattern \<^verbatim>\<open>*\<close> does not
  compile, and the pattern \<^verbatim>\<open>a*\<close> finds one match, the empty one, in the empty text.
\<close>

theorem custom_pattern_counterexample:
  "find_strings search_site [] ''*'' = Inl Re_error \<and>
   find_strings search_site [] ''a*'' = Inr [ [ [] ] ]"
  by code_simp

section \<open>The links of a page\<close>








section \<open>The base of relative links\<close>

text \<open>
  C4 fails on the program: \<^verbatim>\<open>crawl\<close> hands its \<^verbatim>\<open>base_url\<close>, the seed, to \<^verbatim>\<open>get_links\<close>
  for every page. The page \<^verbatim>\<open>https://a.com/dir/page.html\<close> refers to \<^verbatim>\<open>other.html\<close>, which
  is \<^verbatim>\<open>https://a.com/dir/other.html\<close> when resolved against the page; the run requests
  \<^verbatim>\<open>https://a.com/other.html\<close> instead.
\<close>

theorem relative_links_resolve_against_the_seed:
  "map fst (requests (snd (crawl 4 relative_site ''https://a.com/'' ''https://a.com/'' 3 False 1
                             False False None start))) =
     [''https://a.com/'', ''https://a.com/dir/page.html'', ''https://a.com/other.html''] \<and>
   urljoin relative_site ''https://a.com/dir/page.html'' ''other.html'' =
     Some ''https://a.com/dir/other.html''"
  by code_simp

section \<open>The custom pattern on child pages\<close>

text \<open>
  The calls that \<^verbatim>\<open>crawl\<close> makes for the links of a page have no \<^verbatim>\<open>search_string\<close>: whatever
  the site, they print no report of the custom pattern.
\<close>

lemma unsearched_refl: "unsearched st st"
  by (simp add: unsearched_def)

lemma unsearched_trans: "unsearched a b \<Longrightarrow> unsearched b c \<Longrightarrow> unsearched a c"
  unfolding unsearched_def
  apply clarify
  subgoal for n1 n2
    apply (rule exI [of _ "n1 @ n2"])
    apply auto
    done
  done

lemma unsearched_print: "\<not> is_strings_found e \<Longrightarrow> unsearched st (print e st)"
  unfolding unsearched_def by (intro exI [of _ "[e]"]) simp

lemma unsearched_same: "printed st' = printed st \<Longrightarrow> unsearched st st'"
  by (simp add: unsearched_def)

lemma unsearched_report_phone_numbers: "unsearched st (report_phone_numbers url html st)"
  by (simp add: report_phone_numbers_def Let_def unsearched_refl unsearched_print
        is_strings_found_def)

lemma unsearched_report_email_addresses: "unsearched st (report_email_addresses url html st)"
  by (simp add: report_email_addresses_def Let_def unsearched_refl unsearched_print
        is_strings_found_def)

lemma unsearched_fetch_html: "unsearched st (snd (fetch_html L url depth st))"
proof (cases "http_get L url")
  case None
  have "unsearched (st\<lparr>requests := requests st @ [(url, depth)]\<rparr>)
          (print (Failed_to_fetch url) (st\<lparr>requests := requests st @ [(url, depth)]\<rparr>))"
    by (rule unsearched_print) (simp add: is_strings_found_def)
  with None show ?thesis
    by (simp add: fetch_html_def unsearched_def)
next
  case (Some a)
  then show ?thesis by (simp add: fetch_html_def unsearched_def)
qed

lemma unsearched_visit:
  assumes "visit L url depth phone email None st = Inl (oc, st') \<or>
           visit L url depth phone email None st = Inr (html, st')"
  shows "unsearched st st'"
proof -
  let ?s = "(print (Crawling url) st)\<lparr>visited_urls := insert url (visited_urls st)\<rparr>"
  obtain h s3 where f: "fetch_html L url depth ?s = (h, s3)"
    by (cases "fetch_html L url depth ?s")
  have "unsearched st (print (Crawling url) st)"
    by (rule unsearched_print) (simp add: is_strings_found_def)
  then have "unsearched st ?s" by (simp add: unsearched_def)
  moreover from unsearched_fetch_html [of ?s L url depth] f have "unsearched ?s s3" by simp
  ultimately have s3: "unsearched st s3" by (rule unsearched_trans)
  let ?s4 = "if phone then report_phone_numbers url h s3 else s3"
  let ?s5 = "if email then report_email_addresses url h ?s4 else ?s4"
  have "unsearched s3 ?s4" by (simp add: unsearched_refl unsearched_report_phone_numbers)
  moreover have "unsearched ?s4 ?s5"
    by (simp add: unsearched_refl unsearched_report_email_addresses)
  ultimately have "unsearched s3 ?s5" by (rule unsearched_trans)
  with s3 have s5: "unsearched st ?s5" by (rule unsearched_trans)
  from assms have "st' = s3 \<or> st' = ?s5"
    unfolding visit_unfold [OF f] Let_def by (auto split: if_splits)
  with s3 s5 show ?thesis by blast
qed

lemma unsearched_crawl_links:
  assumes crawl: "\<And>url depth st.
      unsearched st (snd (crawl fuel L url base_url depth follow_external delay phone email None st))"
  shows "unsearched st (snd (crawl_links fuel L links base_url depth follow_external delay phone email st))"
proof (induction links arbitrary: st)
  case Nil
  show ?case by (simp add: unsearched_refl)
next
  case (Cons link links)
  show ?case
  proof (cases "delay < 0")
    case True
    then show ?thesis by (simp add: unsearched_refl)
  next
    case False
    obtain oc st' where c: "crawl fuel L link base_url (depth - 1) follow_external delay phone email None st = (oc, st')"
      by (cases "crawl fuel L link base_url (depth - 1) follow_external delay phone email None st")
    from crawl [of st link "depth - 1"] c have g: "unsearched st st'" by simp
    show ?thesis
    proof (cases oc)
      case Returned
      with False c have "crawl_links fuel L (link # links) base_url depth follow_external delay phone email st
          = crawl_links fuel L links base_url depth follow_external delay phone email st'" by simp
      with g Cons.IH [of st'] show ?thesis by (auto intro: unsearched_trans)
    next
      case (Raised e)
      with False c g show ?thesis by simp
    next
      case Out_of_fuel
      with False c g show ?thesis by simp
    qed
  qed
qed

lemma unsearched_follow:
  assumes crawl: "\<And>url depth st.
      unsearched st (snd (crawl fuel L url base_url depth follow_external delay phone email None st))"
  shows "unsearched st (snd (follow fuel L html base_url depth follow_external delay phone email st))"
proof (cases "get_links L html base_url follow_external")
  case (Inl e)
  then show ?thesis by (simp add: follow_def unsearched_refl)
next
  case (Inr links)
  have "unsearched st (snd (crawl_links fuel L (iteration L links) base_url depth follow_external
                              delay phone email st))"
    by (rule unsearched_crawl_links) (rule crawl)
  with Inr show ?thesis by (simp add: follow_def)
qed

lemma unsearched_crawl:
  "unsearched st (snd (crawl fuel L url base_url depth follow_external delay phone email None st))"
proof (induction fuel arbitrary: url depth st)
  case 0
  show ?case by (simp add: unsearched_refl)
next
  case (Suc fuel)
  show ?case
  proof (cases "depth = 0 \<or> url \<in> visited_urls st")
    case True
    then show ?thesis by (simp only: crawl_Suc if_True snd_conv unsearched_refl)
  next
    case False
    show ?thesis
    proof (cases "visit L url depth phone email None st")
      case (Inl stopped)
      obtain oc st' where "stopped = (oc, st')" by (cases stopped)
      with Inl False unsearched_visit [of L url depth phone email st oc st']
      show ?thesis by (simp add: crawl_Suc del: crawl.simps)
    next
      case (Inr cont)
      obtain html st' where cont: "cont = (html, st')" by (cases cont)
      with Inr False unsearched_visit [of L url depth phone email st _ st' html]
      have "unsearched st st'" by simp
      moreover have "unsearched st' (snd (follow fuel L html base_url depth follow_external delay phone email st'))"
        by (rule unsearched_follow) (rule Suc.IH)
      ultimately show ?thesis using Inr cont False
        by (simp add: crawl_Suc del: crawl.simps) (erule (1) unsearched_trans)
    qed
  qed
qed

lemma links_are_not_searched:
  "\<exists>new. printed (snd (crawl_links fuel L links base_url depth follow_external delay phone email st))
           = printed st @ new \<and>
         (\<forall>url found. Strings_found url found \<notin> set new)"
proof -
  have "unsearched st (snd (crawl_links fuel L links base_url depth follow_external delay phone email st))"
    by (rule unsearched_crawl_links) (rule unsearched_crawl)
  then show ?thesis unfolding unsearched_def is_strings_found_def by fastforce
qed

text \<open>
  C5 fails on the program: the recursive call leaves \<^verbatim>\<open>search_string\<close> out. In this run
  the seed and the page it links to both hold the word; the run reports it for the seed
  only, although \<open>find_strings\<close> finds it in the text of the child page.
\<close>

theorem child_pages_are_not_searched:
  "printed (snd (crawl 3 search_site ''https://a.com/'' ''https://a.com/'' 2 False 1 False False
                   (Some ''needle'') start)) =
     [Crawling ''https://a.com/'', Strings_found ''https://a.com/'' [ [''needle''] ],
      Crawling ''https://a.com/p1''] \<and>
   find_strings search_site ''a Needle on a child'' ''needle'' = Inr [ [''Needle''] ]"
  by code_simp

section \<open>The scenario of the seed with three links\<close>

lemma crawl_links_depth_one:
  "crawl_links (Suc fuel) L links base_url 1 follow_external delay phone email st =
     (if links = [] \<or> 0 \<le> delay then Returned else Raised Value_error, st)"
  by (induction links) (simp_all add: crawl_Suc del: crawl.simps)

lemma follow_depth_one:
  "follow (Suc fuel) L html base_url 1 follow_external delay phone email st =
     (case get_links L html base_url follow_external of
        Inl e \<Rightarrow> Raised e
      | Inr links \<Rightarrow> if iteration L links = [] \<or> 0 \<le> delay then Returned
                     else Raised Value_error, st)"
  unfolding follow_def crawl_links_depth_one by (simp split: sum.splits)

lemma visit_fetches:
  assumes "http_get L url = Some html" "html \<noteq> []"
  shows "\<exists>st'. visit L url depth phone email None st = Inr (html, st')"
proof -
  from assms(1) obtain st3 where "fetch_html L url depth
      ((print (Crawling url) st)\<lparr>visited_urls := insert url (visited_urls st)\<rparr>) = (html, st3)"
    by (simp add: fetch_html_def)
  from visit_unfold [OF this] assms(2) show ?thesis
    by (simp add: Let_def)
qed

lemma visit_None_returns:
  assumes "visit L url depth phone email None st = Inl (oc, st')"
  shows "oc = Returned"
proof -
  obtain h st3 where f: "fetch_html L url depth
      ((print (Crawling url) st)\<lparr>visited_urls := insert url (visited_urls st)\<rparr>) = (h, st3)"
    by (cases "fetch_html L url depth
      ((print (Crawling url) st)\<lparr>visited_urls := insert url (visited_urls st)\<rparr>)")
  from assms show ?thesis
    unfolding visit_unfold [OF f] Let_def
    by (auto split: if_splits)
qed

lemma references_parseD:
  assumes "references_parse L url base_url follow_external"
    and "http_get L url = Some html" "html \<noteq> []"
  obtains links where "get_links L html base_url follow_external = Inr links"
  using assms unfolding references_parse_def by (auto split: sum.splits)

lemma crawl_depth_one:
  assumes "url \<notin> visited_urls st"
  shows "requests (snd (crawl (Suc (Suc fuel)) L url base_url 1 follow_external delay phone email
                          search_string st)) = requests st @ [(url, 1)] \<and>
         visited_urls (snd (crawl (Suc (Suc fuel)) L url base_url 1 follow_external delay phone
                          email search_string st)) = insert url (visited_urls st) \<and>
         (search_string = None \<and> 0 \<le> delay \<and>
          references_parse L url base_url follow_external \<longrightarrow>
            fst (crawl (Suc (Suc fuel)) L url base_url 1 follow_external delay phone email
                   search_string st) = Returned)"
proof (cases "visit L url 1 phone email search_string st")
  case (Inl stopped)
  obtain oc st' where s: "stopped = (oc, st')" by (cases stopped)
  with Inl visit_fields [of L url 1 phone email search_string st oc st']
  have "visited_urls st' = insert url (visited_urls st)" "requests st' = requests st @ [(url, 1)]"
    by simp_all
  moreover from Inl s visit_None_returns [of L url 1 phone email st oc st']
  have "search_string = None \<longrightarrow> oc = Returned" by auto
  ultimately show ?thesis using assms Inl s
    by (auto simp add: crawl_Suc simp del: crawl.simps crawl_links.simps)
next
  case (Inr cont)
  obtain html st' where c: "cont = (html, st')" by (cases cont)
  with Inr have v: "visit L url 1 phone email search_string st = Inr (html, st')" by simp
  from visit_fields [of L url 1 phone email search_string st _ st' html] v
  have f: "visited_urls st' = insert url (visited_urls st)"
    "requests st' = requests st @ [(url, 1)]"
    by simp_all
  from assms v
  have run: "crawl (Suc (Suc fuel)) L url base_url 1 follow_external delay phone email
               search_string st =
             follow (Suc fuel) L html base_url 1 follow_external delay phone email st'"
    by (simp add: crawl_Suc [of "Suc fuel"] del: crawl.simps crawl_links.simps)
  have "fst (follow (Suc fuel) L html base_url 1 follow_external delay phone email st') = Returned"
    if "0 \<le> delay" "references_parse L url base_url follow_external"
  proof -
    from visit_text [OF v] have "http_get L url = Some html" "html \<noteq> []" by simp_all
    with that(2) obtain links where "get_links L html base_url follow_external = Inr links"
      by (rule references_parseD)
    with that(1) show ?thesis by (simp add: follow_depth_one)
  qed
  with f show ?thesis unfolding run by (simp add: follow_depth_one)
qed

lemma crawl_links_two:
  assumes "a \<notin> visited_urls st" "b \<notin> visited_urls st" "a \<noteq> b" "0 \<le> delay"
    and "references_parse L a base_url follow_external"
        "references_parse L b base_url follow_external"
  shows "\<exists>st'. crawl_links (Suc (Suc fuel)) L [a, b] base_url 2 follow_external delay phone email st
           = (Returned, st') \<and>
         requests st' = requests st @ [(a, 1), (b, 1)] \<and>
         visited_urls st' = insert b (insert a (visited_urls st))"
proof -
  obtain oc1 st1 where 1: "crawl (Suc (Suc fuel)) L a base_url 1 follow_external delay phone email
      None st = (oc1, st1)"
    by (cases "crawl (Suc (Suc fuel)) L a base_url 1 follow_external delay phone email None st")
  with crawl_depth_one [OF assms(1), of fuel L base_url follow_external delay phone email None]
    assms(4,5)
  have s1: "oc1 = Returned" "requests st1 = requests st @ [(a, 1)]"
    "visited_urls st1 = insert a (visited_urls st)" by simp_all
  with assms have b: "b \<notin> visited_urls st1" by simp
  obtain oc2 st2 where 2: "crawl (Suc (Suc fuel)) L b base_url 1 follow_external delay phone email
      None st1 = (oc2, st2)"
    by (cases "crawl (Suc (Suc fuel)) L b base_url 1 follow_external delay phone email None st1")
  with crawl_depth_one [OF b, of fuel L base_url follow_external delay phone email None]
    assms(4,6)
  have s2: "oc2 = Returned" "requests st2 = requests st1 @ [(b, 1)]"
    "visited_urls st2 = insert b (visited_urls st1)" by simp_all
  from assms(4) 1 2 s1(1) s2(1)
  have "crawl_links (Suc (Suc fuel)) L [a, b] base_url 2 follow_external delay phone email st
           = (Returned, st2)"
    by (simp del: crawl.simps)
  with s1 s2 show ?thesis by simp
qed

lemma collect_links_of_urls:
  assumes "map (urljoin L base_url) refs = map Some urls"
    and "\<forall>u \<in> set urls. netloc L u \<noteq> None"
  shows "collect_links L base_url base_domain follow_external refs acc =
     Inr (foldl (\<lambda>links u. if follow_external \<or> netloc L u = Some base_domain
                            then set_add links u else links) acc urls)"
  using assms
proof (induction refs arbitrary: urls acc)
  case Nil
  then show ?case by simp
next
  case (Cons href refs)
  from Cons.prems(1) obtain u us where u: "urls = u # us" "urljoin L base_url href = Some u"
    "map (urljoin L base_url) refs = map Some us"
    by (cases urls) auto
  from Cons.prems(2) u(1) obtain d where d: "netloc L u = Some d" and
    us: "\<forall>u \<in> set us. netloc L u \<noteq> None" by auto
  from Cons.IH [OF u(3) us] u(1,2) d show ?case by simp
qed

text \<open>
  C3, as the program has it. The seed \<^verbatim>\<open>https://a.com/\<close> has the links \<^verbatim>\<open>p1\<close>, \<^verbatim>\<open>p1\<close>
  and \<^verbatim>\<open>p2\<close>, which \<open>get_links\<close> reduces to \<^verbatim>\<open>p1\<close> and \<^verbatim>\<open>p2\<close>. With depth \<open>1\<close> the run
  returns having requested the seed alone: the calls for \<^verbatim>\<open>p1\<close> and \<^verbatim>\<open>p2\<close> have depth \<open>0\<close>
  and return at once without a request. With depth \<open>2\<close>, and when \<^verbatim>\<open>urllib\<close> accepts the
  references that \<^verbatim>\<open>p1\<close> and \<^verbatim>\<open>p2\<close> hold, the run requests the seed, then \<^verbatim>\<open>p1\<close> and \<^verbatim>\<open>p2\<close>
  once each, in either order and with depth \<open>1\<close>, and nothing else.
\<close>

theorem seed_with_three_links:
  assumes page: "http_get L ''https://a.com/'' = Some html" "html \<noteq> []"
    and links: "map (urljoin L ''https://a.com/'') (hrefs L html) =
                  [Some ''https://a.com/p1'', Some ''https://a.com/p1'', Some ''https://a.com/p2'']"
    and hosts: "netloc L ''https://a.com/'' \<noteq> None"
               "netloc L ''https://a.com/p1'' = netloc L ''https://a.com/''"
               "netloc L ''https://a.com/p2'' = netloc L ''https://a.com/''"
    and order: "iteration L [''https://a.com/p1'', ''https://a.com/p2''] =
                  [''https://a.com/p1'', ''https://a.com/p2''] \<or>
                iteration L [''https://a.com/p1'', ''https://a.com/p2''] =
                  [''https://a.com/p2'', ''https://a.com/p1'']"
    and delay: "0 \<le> delay"
  shows "get_links L html ''https://a.com/'' False =
           Inr [''https://a.com/p1'', ''https://a.com/p2''] \<and>
         fst (crawl (Suc (Suc fuel)) L ''https://a.com/'' ''https://a.com/'' 1 False delay phone
                email None start) = Returned \<and>
         requests (snd (crawl (Suc (Suc fuel)) L ''https://a.com/'' ''https://a.com/'' 1 False
                          delay phone email None start)) = [(''https://a.com/'', 1)] \<and>
         crawl (Suc fuel) L ''https://a.com/p1'' ''https://a.com/'' 0 False delay phone email None st
           = (Returned, st) \<and>
         crawl (Suc fuel) L ''https://a.com/p2'' ''https://a.com/'' 0 False delay phone email None st
           = (Returned, st) \<and>
         (references_parse L ''https://a.com/p1'' ''https://a.com/'' False \<and>
          references_parse L ''https://a.com/p2'' ''https://a.com/'' False \<longrightarrow>
            fst (crawl (Suc (Suc (Suc fuel))) L ''https://a.com/'' ''https://a.com/'' 2 False delay
                   phone email None start) = Returned \<and>
            (requests (snd (crawl (Suc (Suc (Suc fuel))) L ''https://a.com/'' ''https://a.com/'' 2
                              False delay phone email None start)) =
               [(''https://a.com/'', 2), (''https://a.com/p1'', 1), (''https://a.com/p2'', 1)] \<or>
             requests (snd (crawl (Suc (Suc (Suc fuel))) L ''https://a.com/'' ''https://a.com/'' 2
                              False delay phone email None start)) =
               [(''https://a.com/'', 2), (''https://a.com/p2'', 1), (''https://a.com/p1'', 1)]))"
proof -
  let ?seed = "''https://a.com/''" and ?p1 = "''https://a.com/p1''" and ?p2 = "''https://a.com/p2''"
  from hosts(1) obtain base_domain where base: "netloc L ?seed = Some base_domain" by blast
  have "map (urljoin L ?seed) (hrefs L html) = map Some [?p1, ?p1, ?p2]"
    by (simp add: links)
  moreover have "\<forall>u \<in> set [?p1, ?p1, ?p2]. netloc L u \<noteq> None"
    using hosts by simp
  ultimately have "collect_links L ?seed base_domain False (hrefs L html) [] =
     Inr (foldl (\<lambda>links u. if False \<or> netloc L u = Some base_domain
                            then set_add links u else links) [] [?p1, ?p1, ?p2])"
    by (rule collect_links_of_urls)
  with base hosts(2,3) have gl: "get_links L html ?seed False = Inr [?p1, ?p2]"
    by (simp add: get_links_def set_add_def)
  have fresh: "?seed \<notin> visited_urls start" by (simp add: start_def)
  have seed_parses: "references_parse L ?seed ?seed False"
    using page(1) gl by (simp add: references_parse_def)
  from crawl_depth_one [OF fresh, of fuel L ?seed False delay phone email None] delay seed_parses
  have one: "fst (crawl (Suc (Suc fuel)) L ?seed ?seed 1 False delay phone email None start)
               = Returned"
    "requests (snd (crawl (Suc (Suc fuel)) L ?seed ?seed 1 False delay phone email None start))
               = [(?seed, 1)]"
    by (simp_all add: start_def)
  from visit_fetches [OF page, of 2 phone email start] obtain st1
    where v: "visit L ?seed 2 phone email None start = Inr (html, st1)" by blast
  with visit_fields [of L ?seed 2 phone email None start _ st1 html]
  have st1: "visited_urls st1 = {?seed}" "requests st1 = [(?seed, 2)]"
    by (simp_all add: start_def)
  have run: "crawl (Suc (Suc (Suc fuel))) L ?seed ?seed 2 False delay phone email None start =
      crawl_links (Suc (Suc fuel)) L (iteration L [?p1, ?p2]) ?seed 2 False delay phone email st1"
    using fresh v gl
    by (simp add: crawl_Suc [of "Suc (Suc fuel)"] follow_def del: crawl.simps crawl_links.simps)
  from st1 have n1: "?p1 \<notin> visited_urls st1" and n2: "?p2 \<notin> visited_urls st1" by simp_all
  have two: "fst (crawl (Suc (Suc (Suc fuel))) L ?seed ?seed 2 False delay phone email None start)
               = Returned \<and>
    (requests (snd (crawl (Suc (Suc (Suc fuel))) L ?seed ?seed 2 False delay phone email None start))
       = [(?seed, 2), (?p1, 1), (?p2, 1)] \<or>
     requests (snd (crawl (Suc (Suc (Suc fuel))) L ?seed ?seed 2 False delay phone email None start))
       = [(?seed, 2), (?p2, 1), (?p1, 1)])"
    if parse: "references_parse L ?p1 ?seed False" "references_parse L ?p2 ?seed False"
    using order
  proof
    assume o: "iteration L [?p1, ?p2] = [?p1, ?p2]"
    from crawl_links_two [OF n1 n2 _ delay parse(1) parse(2), of fuel phone email]
    obtain st' where "crawl_links (Suc (Suc fuel)) L [?p1, ?p2] ?seed 2 False delay phone email st1
        = (Returned, st')" "requests st' = requests st1 @ [(?p1, 1), (?p2, 1)]"
      by auto
    with run o st1 show ?thesis by simp
  next
    assume o: "iteration L [?p1, ?p2] = [?p2, ?p1]"
    from crawl_links_two [OF n2 n1 _ delay parse(2) parse(1), of fuel phone email]
    obtain st' where "crawl_links (Suc (Suc fuel)) L [?p2, ?p1] ?seed 2 False delay phone email st1
        = (Returned, st')" "requests st' = requests st1 @ [(?p2, 1), (?p1, 1)]"
      by auto
    with run o st1 show ?thesis by simp
  qed
  have zero: "crawl (Suc fuel) L u ?seed 0 False delay phone email None st = (Returned, st)" for u
    by simp
  from gl one two zero show ?thesis by blast
qed

theorem seed_with_three_links_witness:
  "fst (crawl 2 links_site ''https://a.com/'' ''https://a.com/'' 1 False 1 False False None start)
     = Returned \<and>
   requests (snd (crawl 2 links_site ''https://a.com/'' ''https://a.com/'' 1 False 1 False False
                    None start)) = [(''https://a.com/'', 1)] \<and>
   fst (crawl 3 links_site ''https://a.com/'' ''https://a.com/'' 2 False 1 False False None start)
     = Returned \<and>
   requests (snd (crawl 3 links_site ''https://a.com/'' ''https://a.com/'' 2 False 1 False False
                    None start)) =
     [(''https://a.com/'', 2), (''https://a.com/p1'', 1), (''https://a.com/p2'', 1)]"
proof -
  have 1: "http_get links_site ''https://a.com/'' = Some ''seed''" by code_simp
  have 2: "''seed'' \<noteq> []" by simp
  have 3: "map (urljoin links_site ''https://a.com/'') (hrefs links_site ''seed'') =
             [Some ''https://a.com/p1'', Some ''https://a.com/p1'', Some ''https://a.com/p2'']"
    by code_simp
  have 4: "netloc links_site ''https://a.com/'' \<noteq> None" by code_simp
  have 5: "netloc links_site ''https://a.com/p1'' = netloc links_site ''https://a.com/''"
    by code_simp
  have 6: "netloc links_site ''https://a.com/p2'' = netloc links_site ''https://a.com/''"
    by code_simp
  have 7: "iteration links_site [''https://a.com/p1'', ''https://a.com/p2''] =
             [''https://a.com/p1'', ''https://a.com/p2'']" by code_simp
  have 8: "(0::rat) \<le> 1" by simp
  have 9: "references_parse links_site ''https://a.com/p1'' ''https://a.com/'' False"
    by code_simp
  have 10: "references_parse links_site ''https://a.com/p2'' ''https://a.com/'' False"
    by code_simp
  have 11: "requests (snd (crawl 3 links_site ''https://a.com/'' ''https://a.com/'' 2 False 1 False
             False None start)) \<noteq>
           [(''https://a.com/'', 2), (''https://a.com/p2'', 1), (''https://a.com/p1'', 1)]"
    by code_simp
  have n: "Suc (Suc 0) = 2" "Suc 2 = 3" by simp_all
  from seed_with_three_links [OF 1 2 3 4 5 6 disjI1 [OF 7] 8, of 0 False False start] 9 10 11
  show ?thesis unfolding n by blast
qed

text \<open>
  The claim C3 as it is written fails: with depth \<open>1\<close> the run on the site of the scenario
  requests the seed and neither \<^verbatim>\<open>p1\<close> nor \<^verbatim>\<open>p2\<close>.
\<close>

theorem depth_one_counterexample:
  "map fst (requests (snd (crawl 5 links_site ''https://a.com/'' ''https://a.com/'' 1 False 1
                             False False None start))) = [''https://a.com/''] \<and>
   hrefs links_site ''seed'' = [''https://a.com/p1'', ''https://a.com/p1'', ''https://a.com/p2'']"
  by code_simp

section \<open>An empty response\<close>

lemma alike_print: "alike st st' \<Longrightarrow> alike (print e st) (print e st')"
  by (simp add: alike_def but_failures_def)

lemma alike_print_failure: "alike st st' \<Longrightarrow> alike st (print (Failed_to_fetch u) st')"
  by (simp add: alike_def but_failures_def is_failure_def)

lemma alike_mark:
  "alike st st' \<Longrightarrow>
   alike (st\<lparr>visited_urls := insert u (visited_urls st)\<rparr>)
         (st'\<lparr>visited_urls := insert u (visited_urls st')\<rparr>)"
  by (simp add: alike_def)

lemma alike_request:
  "alike st st' \<Longrightarrow>
   alike (st\<lparr>requests := requests st @ [r]\<rparr>) (st'\<lparr>requests := requests st' @ [r]\<rparr>)"
  by (simp add: alike_def)

lemma alike_report_phone_numbers:
  "alike st st' \<Longrightarrow> alike (report_phone_numbers url html st) (report_phone_numbers url html st')"
  by (simp add: report_phone_numbers_def Let_def alike_print)

lemma alike_report_email_addresses:
  "alike st st' \<Longrightarrow>
   alike (report_email_addresses url html st) (report_email_addresses url html st')"
  by (simp add: report_email_addresses_def Let_def alike_print)

lemma alike_report_strings:
  "alike st st' \<Longrightarrow>
   rel_sum (=) alike (report_strings L url html s st) (report_strings L url html s st')"
  by (simp add: report_strings_def alike_print split: sum.splits)

lemma alike_fetch_html:
  assumes "http_get L u = Some []" "alike st st'"
  shows "fst (fetch_html (failing_at L u) url depth st') = fst (fetch_html L url depth st) \<and>
         alike (snd (fetch_html L url depth st)) (snd (fetch_html (failing_at L u) url depth st'))"
proof (cases "url = u")
  case True
  with assms show ?thesis
    by (simp add: fetch_html_def failing_at_def Let_def alike_print_failure alike_request)
next
  case False
  with assms show ?thesis
    by (simp add: fetch_html_def failing_at_def Let_def alike_print alike_request
             split: option.splits)
qed

lemma alike_extract:
  assumes "alike s s'"
  shows "rel_sum (rel_prod (=) alike) (rel_prod (=) alike)
     (let st4 = (if phone then report_phone_numbers url html s else s);
          st5 = (if email then report_email_addresses url html st4 else st4)
      in case (case search_string of
                 None \<Rightarrow> Inr st5
               | Some p \<Rightarrow> if p = [] then Inr st5 else report_strings L url html p st5) of
           Inl e \<Rightarrow> Inl (Raised e, st5)
         | Inr st6 \<Rightarrow> Inr (html, st6))
     (let st4 = (if phone then report_phone_numbers url html s' else s');
          st5 = (if email then report_email_addresses url html st4 else st4)
      in case (case search_string of
                 None \<Rightarrow> Inr st5
               | Some p \<Rightarrow> if p = [] then Inr st5 else report_strings L url html p st5) of
           Inl e \<Rightarrow> Inl (Raised e, st5)
         | Inr st6 \<Rightarrow> Inr (html, st6))"
proof -
  define t where "t = (if email
     then report_email_addresses url html (if phone then report_phone_numbers url html s else s)
     else (if phone then report_phone_numbers url html s else s))"
  define t' where "t' = (if email
     then report_email_addresses url html (if phone then report_phone_numbers url html s' else s')
     else (if phone then report_phone_numbers url html s' else s'))"
  from assms have tt: "alike t t'"
    by (simp add: t_def t'_def alike_report_phone_numbers alike_report_email_addresses)
  have "rel_sum (rel_prod (=) alike) (rel_prod (=) alike)
     (case (case search_string of
              None \<Rightarrow> Inr t
            | Some p \<Rightarrow> if p = [] then Inr t else report_strings L url html p t) of
        Inl e \<Rightarrow> Inl (Raised e, t) | Inr st6 \<Rightarrow> Inr (html, st6))
     (case (case search_string of
              None \<Rightarrow> Inr t'
            | Some p \<Rightarrow> if p = [] then Inr t' else report_strings L url html p t') of
        Inl e \<Rightarrow> Inl (Raised e, t') | Inr st6 \<Rightarrow> Inr (html, st6))"
  proof (cases search_string)
    case None
    with tt show ?thesis by simp
  next
    case (Some p)
    show ?thesis
    proof (cases "p = []")
      case True
      with Some tt show ?thesis by simp
    next
      case False
      from alike_report_strings [OF tt, of L url html p] tt
      have "rel_sum (rel_prod (=) alike) (rel_prod (=) alike)
         (case report_strings L url html p t of
            Inl e \<Rightarrow> Inl (Raised e, t) | Inr st6 \<Rightarrow> Inr (html, st6))
         (case report_strings L url html p t' of
            Inl e \<Rightarrow> Inl (Raised e, t') | Inr st6 \<Rightarrow> Inr (html, st6))"
        by (cases "report_strings L url html p t"; cases "report_strings L url html p t'") simp_all
      with Some False show ?thesis by simp
    qed
  qed
  then show ?thesis by (simp only: Let_def t_def t'_def)
qed

lemma report_strings_failing_at:
  "report_strings (failing_at L u) url html s st = report_strings L url html s st"
  by (simp add: report_strings_def find_strings_def failing_at_def)

lemma alike_visit:
  assumes "http_get L u = Some []" "alike st st'"
  shows "rel_sum (rel_prod (=) alike) (rel_prod (=) alike)
           (visit L url depth phone email search_string st)
           (visit (failing_at L u) url depth phone email search_string st')"
proof -
  let ?s = "(print (Crawling url) st)\<lparr>visited_urls := insert url (visited_urls st)\<rparr>"
  let ?s' = "(print (Crawling url) st')\<lparr>visited_urls := insert url (visited_urls st')\<rparr>"
  from assms(2) have a: "alike ?s ?s'"
    using alike_mark [OF alike_print [OF assms(2), of "Crawling url"], of url] by simp
  obtain h s3 where f: "fetch_html L url depth ?s = (h, s3)"
    by (cases "fetch_html L url depth ?s")
  obtain h' s3' where f': "fetch_html (failing_at L u) url depth ?s' = (h', s3')"
    by (cases "fetch_html (failing_at L u) url depth ?s'")
  from alike_fetch_html [OF assms(1) a, of url depth] f f'
  have h: "h' = h" and s3: "alike s3 s3'" by simp_all
  show ?thesis
  proof (cases "h = []")
    case True
    with h s3 show ?thesis
      by (simp add: visit_unfold [OF f] visit_unfold [OF f'])
  next
    case False
    with h alike_extract [OF s3, where phone = phone and url = url and html = h and email = email
        and search_string = search_string and L = L] show ?thesis
      by (simp only: visit_unfold [OF f] visit_unfold [OF f'] report_strings_failing_at if_False)
  qed
qed

lemma collect_links_failing_at:
  "collect_links (failing_at L u) base_url base_domain follow_external refs acc =
   collect_links L base_url base_domain follow_external refs acc"
  by (induction refs arbitrary: acc) (simp_all add: failing_at_def split: option.splits)

lemma get_links_failing_at [simp]:
  "get_links (failing_at L u) html base_url follow_external =
   get_links L html base_url follow_external"
proof -
  have "netloc (failing_at L u) = netloc L" "hrefs (failing_at L u) = hrefs L"
    by (simp_all add: failing_at_def)
  then show ?thesis
    by (simp add: get_links_def collect_links_failing_at split: option.splits)
qed

lemma iteration_failing_at [simp]: "iteration (failing_at L u) = iteration L"
  by (simp add: failing_at_def)

lemma alike_crawl_links:
  assumes crawl: "\<And>url depth search_string st st'. alike st st' \<Longrightarrow>
      rel_prod (=) alike
        (crawl fuel L url base_url depth follow_external delay phone email search_string st)
        (crawl fuel (failing_at L u) url base_url depth follow_external delay phone email
           search_string st')"
    and "alike st st'"
  shows "rel_prod (=) alike
        (crawl_links fuel L links base_url depth follow_external delay phone email st)
        (crawl_links fuel (failing_at L u) links base_url depth follow_external delay phone email st')"
  using assms(2)
proof (induction links arbitrary: st st')
  case Nil
  then show ?case by simp
next
  case (Cons link links)
  show ?case
  proof (cases "delay < 0")
    case True
    with Cons.prems show ?thesis by simp
  next
    case False
    obtain oc s where c: "crawl fuel L link base_url (depth - 1) follow_external delay phone email
        None st = (oc, s)"
      by (cases "crawl fuel L link base_url (depth - 1) follow_external delay phone email None st")
    obtain oc' s' where c': "crawl fuel (failing_at L u) link base_url (depth - 1) follow_external
        delay phone email None st' = (oc', s')"
      by (cases "crawl fuel (failing_at L u) link base_url (depth - 1) follow_external delay phone
        email None st'")
    from crawl [OF Cons.prems, of link "depth - 1" None] c c'
    have oc: "oc' = oc" and s: "alike s s'" by simp_all
    show ?thesis
    proof (cases oc)
      case Returned
      with False c c' oc Cons.IH [OF s] show ?thesis by simp
    next
      case (Raised e)
      with False c c' oc s show ?thesis by simp
    next
      case Out_of_fuel
      with False c c' oc s show ?thesis by simp
    qed
  qed
qed

lemma alike_follow:
  assumes crawl: "\<And>url depth search_string st st'. alike st st' \<Longrightarrow>
      rel_prod (=) alike
        (crawl fuel L url base_url depth follow_external delay phone email search_string st)
        (crawl fuel (failing_at L u) url base_url depth follow_external delay phone email
           search_string st')"
    and "alike st st'"
  shows "rel_prod (=) alike
        (follow fuel L html base_url depth follow_external delay phone email st)
        (follow fuel (failing_at L u) html base_url depth follow_external delay phone email st')"
proof (cases "get_links L html base_url follow_external")
  case (Inl e)
  with assms(2) show ?thesis by (simp add: follow_def)
next
  case (Inr links)
  have "rel_prod (=) alike
        (crawl_links fuel L (iteration L links) base_url depth follow_external delay phone email st)
        (crawl_links fuel (failing_at L u) (iteration L links) base_url depth follow_external delay
           phone email st')"
    using crawl assms(2) by (rule alike_crawl_links)
  with Inr show ?thesis by (simp add: follow_def)
qed

lemma alike_crawl:
  assumes "http_get L u = Some []"
  shows "alike st st' \<Longrightarrow>
      rel_prod (=) alike
        (crawl fuel L url base_url depth follow_external delay phone email search_string st)
        (crawl fuel (failing_at L u) url base_url depth follow_external delay phone email
           search_string st')"
proof (induction fuel arbitrary: url depth search_string st st')
  case 0
  then show ?case by simp
next
  case (Suc fuel)
  from Suc.prems have v: "visited_urls st' = visited_urls st" by (simp add: alike_def)
  show ?case
  proof (cases "depth = 0 \<or> url \<in> visited_urls st")
    case True
    with v Suc.prems show ?thesis by (simp add: crawl_Suc del: crawl.simps)
  next
    case False
    from alike_visit [OF assms Suc.prems, of url depth phone email search_string]
    show ?thesis
    proof (cases "visit L url depth phone email search_string st";
           cases "visit (failing_at L u) url depth phone email search_string st'")
      fix a b
      assume "visit L url depth phone email search_string st = Inl a"
        "visit (failing_at L u) url depth phone email search_string st' = Inl b"
        "rel_sum (rel_prod (=) alike) (rel_prod (=) alike)
           (visit L url depth phone email search_string st)
           (visit (failing_at L u) url depth phone email search_string st')"
      with False v show ?thesis by (simp add: crawl_Suc del: crawl.simps)
    next
      fix a b
      assume i: "visit L url depth phone email search_string st = Inr a"
        "visit (failing_at L u) url depth phone email search_string st' = Inr b"
        and r: "rel_sum (rel_prod (=) alike) (rel_prod (=) alike)
           (visit L url depth phone email search_string st)
           (visit (failing_at L u) url depth phone email search_string st')"
      obtain html s where a: "a = (html, s)" by (cases a)
      obtain html' s' where b: "b = (html', s')" by (cases b)
      from i r a b have "html' = html" "alike s s'" by simp_all
      then have "rel_prod (=) alike
        (follow fuel L html base_url depth follow_external delay phone email s)
        (follow fuel (failing_at L u) html base_url depth follow_external delay phone email s')"
        using Suc.IH by (intro alike_follow)
      with False v i a b \<open>html' = html\<close> show ?thesis
        by (simp add: crawl_Suc del: crawl.simps)
    qed simp_all
  qed
qed

lemma alike_refl: "alike st st"
  by (simp add: alike_def)

text \<open>
  C10. Let the request for \<open>u\<close> succeed with an empty text. The call of \<^verbatim>\<open>crawl\<close> for \<open>u\<close>
  marks \<open>u\<close> visited, makes the request and returns: it prints nothing but its
  \<^verbatim>\<open>Crawling\<close> line, so no finding is reported, and it calls \<^verbatim>\<open>crawl\<close> for no link. The
  same call in the world where the request for \<open>u\<close> fails ends in the same state, with the
  line \<^verbatim>\<open>Failed to fetch\<close> of \<^verbatim>\<open>fetch_html\<close> in addition. And every run, from any seed,
  ends in the same way in the two worlds, with the same visited set, the same requests and,
  these lines apart, the same output.
\<close>

theorem empty_page_is_treated_as_failure:
  assumes "http_get L u = Some []"
  shows "(u \<notin> visited_urls st \<and> depth \<noteq> 0 \<longrightarrow>
            crawl (Suc fuel) L u base_url depth follow_external delay phone email search_string st =
              (Returned, st\<lparr>visited_urls := insert u (visited_urls st),
                            requests := requests st @ [(u, depth)],
                            printed := printed st @ [Crawling u]\<rparr>) \<and>
            crawl (Suc fuel) (failing_at L u) u base_url depth follow_external delay phone email
                search_string st =
              (Returned, st\<lparr>visited_urls := insert u (visited_urls st),
                            requests := requests st @ [(u, depth)],
                            printed := printed st @ [Crawling u, Failed_to_fetch u]\<rparr>)) \<and>
         fst (crawl fuel L url base_url depth follow_external delay phone email search_string st) =
         fst (crawl fuel (failing_at L u) url base_url depth follow_external delay phone email
                search_string st) \<and>
         visited_urls (snd (crawl fuel L url base_url depth follow_external delay phone email
                              search_string st)) =
         visited_urls (snd (crawl fuel (failing_at L u) url base_url depth follow_external delay
                              phone email search_string st)) \<and>
         requests (snd (crawl fuel L url base_url depth follow_external delay phone email
                          search_string st)) =
         requests (snd (crawl fuel (failing_at L u) url base_url depth follow_external delay phone
                          email search_string st)) \<and>
         but_failures (printed (snd (crawl fuel L url base_url depth follow_external delay phone
                                       email search_string st))) =
         but_failures (printed (snd (crawl fuel (failing_at L u) url base_url depth follow_external
                                       delay phone email search_string st)))"
proof -
  let ?s = "(print (Crawling u) st)\<lparr>visited_urls := insert u (visited_urls st)\<rparr>"
  from assms have f: "fetch_html L u depth ?s = ([], ?s\<lparr>requests := requests ?s @ [(u, depth)]\<rparr>)"
    by (simp add: fetch_html_def)
  have f': "fetch_html (failing_at L u) u depth ?s =
      ([], print (Failed_to_fetch u) (?s\<lparr>requests := requests ?s @ [(u, depth)]\<rparr>))"
    by (simp add: fetch_html_def failing_at_def)
  have one: "u \<notin> visited_urls st \<and> depth \<noteq> 0 \<longrightarrow>
            crawl (Suc fuel) L u base_url depth follow_external delay phone email search_string st =
              (Returned, st\<lparr>visited_urls := insert u (visited_urls st),
                            requests := requests st @ [(u, depth)],
                            printed := printed st @ [Crawling u]\<rparr>) \<and>
            crawl (Suc fuel) (failing_at L u) u base_url depth follow_external delay phone email
                search_string st =
              (Returned, st\<lparr>visited_urls := insert u (visited_urls st),
                            requests := requests st @ [(u, depth)],
                            printed := printed st @ [Crawling u, Failed_to_fetch u]\<rparr>)"
    by (simp add: crawl_Suc visit_unfold [OF f] visit_unfold [OF f'] print_def del: crawl.simps)
  have "rel_prod (=) alike
        (crawl fuel L url base_url depth follow_external delay phone email search_string st)
        (crawl fuel (failing_at L u) url base_url depth follow_external delay phone email
           search_string st)"
    by (rule alike_crawl [OF assms alike_refl])
  then have all: "fst (crawl fuel L url base_url depth follow_external delay phone email search_string st) =
         fst (crawl fuel (failing_at L u) url base_url depth follow_external delay phone email
                search_string st) \<and>
      alike (snd (crawl fuel L url base_url depth follow_external delay phone email
                              search_string st))
            (snd (crawl fuel (failing_at L u) url base_url depth follow_external delay
                              phone email search_string st))"
    by (simp add: rel_prod_sel)
  from one all show ?thesis unfolding alike_def by blast
qed

theorem empty_page_is_treated_as_failure_witness:
  "http_get empty_page_site ''https://a.com/empty'' = Some [] \<and>
   requests (snd (crawl 3 empty_page_site ''https://a.com/'' ''https://a.com/'' 2 False 1 True True
                    None start)) =
     [(''https://a.com/'', 2), (''https://a.com/empty'', 1), (''https://a.com/p1'', 1)] \<and>
   requests (snd (crawl 3 (failing_at empty_page_site ''https://a.com/empty'') ''https://a.com/''
                    ''https://a.com/'' 2 False 1 True True None start)) =
     [(''https://a.com/'', 2), (''https://a.com/empty'', 1), (''https://a.com/p1'', 1)] \<and>
   crawl (Suc 3) empty_page_site ''https://a.com/empty'' ''https://a.com/'' 2 False 1 True True None
       start =
     (Returned, start\<lparr>visited_urls := insert ''https://a.com/empty'' (visited_urls start),
                        requests := requests start @ [(''https://a.com/empty'', 2)],
                        printed := printed start @ [Crawling ''https://a.com/empty'']\<rparr>)"
proof -
  have 1: "http_get empty_page_site ''https://a.com/empty'' = Some []" by code_simp
  have 2: "requests (snd (crawl 3 empty_page_site ''https://a.com/'' ''https://a.com/'' 2 False 1
                            True True None start)) =
     [(''https://a.com/'', 2), (''https://a.com/empty'', 1), (''https://a.com/p1'', 1)]"
    by code_simp
  from 1 2 empty_page_is_treated_as_failure [OF 1, where st = start and fuel = 3 and depth = 2
      and url = "''https://a.com/''" and base_url = "''https://a.com/''" and follow_external = False
      and delay = 1 and phone = True and email = True and search_string = None]
  show ?thesis by (simp add: start_def del: crawl.simps)
qed

end
